theory Spec2Isabelle
  imports Main
begin

section \<open>Delegations\<close>

text \<open>
  A scalar is what a fact of the index can hold: a string, an integer, the number
  \<open>Infinity\<close> (the expiration of a delegation that never expires), a content link, or
  the entity of one capability of a delegation (named by the delegation's link and the
  capability's position in it).
\<close>

datatype scalar = Text string | Num int | Infinity | Link string | Entity string nat

record capability =
  can :: string
  with' :: string
  nb :: "(string \<times> scalar) list"

text \<open>
  A delegation as the code reads it: \<open>d.cid\<close>, \<open>d.issuer.did()\<close>,
  \<open>d.audience.did()\<close>, its capabilities, its expiration (\<open>None\<close> for a delegation
  that never expires) and the links of its proofs.
\<close>

record delegation =
  cid :: string
  issuer :: string
  audience :: string
  capabilities :: "capability list"
  expiration :: "int option"
  proofs :: "string list"

section \<open>The delegation store (DbDelegationsStorageWithR2)\<close>

text \<open>A JavaScript error value: its \<open>name\<close> and its \<open>message\<close>.\<close>

datatype js_error = JsError (error_name: string) (error_message: string)

definition UnexpectedDelegation :: "string \<Rightarrow> js_error" where
  "UnexpectedDelegation message = JsError ''UnexpectedDelegation'' message"

text \<open>Decimal rendering of a length inside a template string.\<close>

fun show_nat :: "nat \<Rightarrow> string" where
  "show_nat n =
     (if n < 10 then [''0123456789'' ! n]
      else show_nat (n div 10) @ [''0123456789'' ! (n mod 10)])"

declare show_nat.simps [simp del]

type_synonym bytes = "nat list"

record delegation_row =
  row_cid :: string
  row_audience :: string
  row_issuer :: string

definition createDelegationRowUpdateV3 :: "delegation \<Rightarrow> delegation_row" where
  "createDelegationRowUpdateV3 d =
     \<lparr>row_cid = cid d, row_audience = audience d, row_issuer = issuer d\<rparr>"

definition carFileKeyer :: "string \<Rightarrow> string" where
  "carFileKeyer c = c @ ''.car''"

text \<open>
  The state the store works on: the R2 bucket \<open>#dags\<close> (keys to CAR bytes), the rows
  of the table \<open>delegations_v3\<close> in insertion order, and whether the database can
  stream (\<open>#db.canStream\<close>).
\<close>

record storage =
  dags :: "string \<rightharpoonup> bytes"
  table :: "delegation_row list"
  canStream :: bool

definition writeEntries ::
  "(string \<rightharpoonup> bytes) \<Rightarrow> (string \<times> bytes) list \<Rightarrow> (string \<rightharpoonup> bytes)" where
  "writeEntries bucket entries = fold (\<lambda>(key, v) b. b(key \<mapsto> v)) entries bucket"

text \<open>
  The archive codec (\<open>delegationsToBytes\<close>, \<open>bytesToDelegations\<close>) is imported from
  another package; the store takes it as a parameter.
\<close>

definition writeDelegations ::
  "(delegation list \<Rightarrow> bytes) \<Rightarrow> (string \<rightharpoonup> bytes) \<Rightarrow> delegation list \<Rightarrow>
   (string \<Rightarrow> string) \<Rightarrow> (string \<rightharpoonup> bytes)" where
  "writeDelegations delegationsToBytes bucket delegations keyer =
     writeEntries bucket
       (map (\<lambda>d. (keyer (cid d), delegationsToBytes [d])) delegations)"

text \<open>\<open>insertInto(...).values(values).onConflict(cid).doNothing()\<close>: a row whose cid is
  already in the table is skipped.\<close>

fun insertInto :: "delegation_row list \<Rightarrow> delegation_row list \<Rightarrow> delegation_row list" where
  "insertInto t [] = t"
| "insertInto t (r # rs) =
     insertInto (if row_cid r \<in> row_cid ` set t then t else t @ [r]) rs"

definition putMany ::
  "(delegation list \<Rightarrow> bytes) \<Rightarrow> delegation list \<Rightarrow> storage \<Rightarrow> (js_error + unit) \<times> storage" where
  "putMany delegationsToBytes delegations st =
     (if length delegations = 0 then (Inr (), st)
      else
        let st1 = st\<lparr>dags := writeDelegations delegationsToBytes (dags st) delegations carFileKeyer\<rparr>;
            values = map createDelegationRowUpdateV3 delegations
        in (Inr (), st1\<lparr>table := insertInto (table st1) values\<rparr>))"

definition count :: "storage \<Rightarrow> nat" where
  "count st = length (table st)"

definition rowToDelegation ::
  "(bytes \<Rightarrow> js_error + delegation list) \<Rightarrow> delegation_row \<Rightarrow> storage \<Rightarrow> js_error + delegation" where
  "rowToDelegation bytesToDelegations row st =
     (let cidString = row_cid row in
      case dags st (carFileKeyer cidString) of
        None \<Rightarrow> Inl (JsError ''Error'' (''failed to read car bytes for cid '' @ cidString))
      | Some carBytes \<Rightarrow>
          (case bytesToDelegations carBytes of
             Inl e \<Rightarrow> Inl e
           | Inr delegations \<Rightarrow>
               if length delegations \<noteq> 1
               then Inl (JsError ''Error''
                      (''expected 1 delegation in CAR, but got '' @ show_nat (length delegations)))
               else (case delegations of d # _ \<Rightarrow> Inr d
                     | [] \<Rightarrow> Inl (JsError ''Error'' ''expected 1 delegation in CAR, but got 0''))))"

text \<open>
  An async generator, as its consumer sees it: the items it yielded and, when it
  threw, the error that ended it.
\<close>

fun yield_rows ::
  "(delegation_row \<Rightarrow> js_error + delegation) \<Rightarrow> delegation_row list \<Rightarrow>
   delegation list \<times> js_error option" where
  "yield_rows f [] = ([], None)"
| "yield_rows f (r # rs) =
     (case f r of
        Inl e \<Rightarrow> ([], Some e)
      | Inr d \<Rightarrow> (case yield_rows f rs of (ds, e) \<Rightarrow> (d # ds, e)))"

definition find_delegations ::
  "(bytes \<Rightarrow> js_error + delegation list) \<Rightarrow> string \<Rightarrow> storage \<Rightarrow>
   delegation list \<times> js_error option" where
  "find_delegations bytesToDelegations query_audience st =
     (let selection = filter (\<lambda>r. row_audience r = query_audience) (table st)
      in yield_rows (\<lambda>row. rowToDelegation bytesToDelegations row st) selection)"

definition asyncIterator ::
  "(bytes \<Rightarrow> js_error + delegation list) \<Rightarrow> storage \<Rightarrow> delegation list \<times> js_error option" where
  "asyncIterator bytesToDelegations st =
     (if \<not> canStream st
      then ([], Some (JsError ''NotImplementedError''
             ''cannot create asyncIterator because the underlying database does not support streaming''))
      else yield_rows (\<lambda>row. rowToDelegation bytesToDelegations row st) (table st))"

section \<open>Accounts\<close>

text \<open>
  The KV namespace holds JSON text; \<open>kv.get(key, {type: 'json'})\<close> parses it and
  gives \<open>null\<close> for a key that is absent. The model keeps the parsed value of each
  key: \<open>JSON.parse (JSON.stringify v) = v\<close> for the arrays of strings the code writes.
\<close>

datatype json =
  JNull | JBool bool | JNum int | JStr string | JArr "json list" | JObj "(string \<times> json) list"

fun truthy :: "json \<Rightarrow> bool" where
  "truthy JNull = False"
| "truthy (JBool b) = b"
| "truthy (JNum n) = (n \<noteq> 0)"
| "truthy (JStr s) = (s \<noteq> [])"
| "truthy (JArr xs) = True"
| "truthy (JObj fs) = True"

type_synonym kv = "string \<rightharpoonup> json"

definition kv_get_json :: "kv \<Rightarrow> string \<Rightarrow> json" where
  "kv_get_json kv key = (case kv key of None \<Rightarrow> JNull | Some v \<Rightarrow> v)"

text \<open>\<open>delegationToString\<close> is imported from another package: a parameter.\<close>

definition saveDelegation ::
  "(delegation \<Rightarrow> string) \<Rightarrow> string \<Rightarrow> delegation \<Rightarrow> kv \<Rightarrow> (js_error + unit) \<times> kv" where
  "saveDelegation delegationToString email d kv =
     (let accs = kv_get_json kv email in
      if truthy accs
      then (case accs of
              JArr xs \<Rightarrow> (Inr (), kv(email \<mapsto> JArr (xs @ [JStr (delegationToString d)])))
            | _ \<Rightarrow> (Inl (JsError ''TypeError'' ''accs.push is not a function''), kv))
      else (Inr (), kv(email \<mapsto> JArr [JStr (delegationToString d)])))"

definition hasDelegations :: "kv \<Rightarrow> string \<Rightarrow> bool" where
  "hasDelegations kv email = (kv email \<noteq> None)"

definition getDelegations :: "kv \<Rightarrow> string \<Rightarrow> json option" where
  "getDelegations kv email =
     (let r = kv_get_json kv email in if \<not> truthy r then None else Some r)"


section \<open>The fact index\<close>

text \<open>
  Modelled from the spec: the delegation-to-fact projector and the fact index
  (\<open>agent/db.js\<close> is not among the sources). A fact is an (entity, attribute, value)
  triple. The attributes are the ones the projector emits: \<open>ucan/issuer\<close>,
  \<open>ucan/audience\<close>, \<open>ucan/expiration\<close>, \<open>ucan/capability\<close>, \<open>ucan/proof\<close>,
  \<open>capability/can\<close>, \<open>capability/with\<close> and \<open>capability/nb/<field>\<close>.
\<close>

datatype attribute =
    UcanIssuer | UcanAudience | UcanExpiration | UcanCapability | UcanProof
  | CapabilityCan | CapabilityWith | CapabilityNb string

type_synonym fact = "scalar \<times> attribute \<times> scalar"

text \<open>
  Modelled from the spec: for each capability of a delegation a capability entity of
  its own, with its \<open>can\<close>, its \<open>with\<close>, one fact per \<open>nb\<close> field, and the
  \<open>ucan/capability\<close> edge from the delegation.
\<close>

definition capability_facts :: "string \<Rightarrow> nat \<times> capability \<Rightarrow> fact list" where
  "capability_facts c ik =
     (case ik of (i, k) \<Rightarrow>
        [(Entity c i, CapabilityCan, Text (can k)),
         (Entity c i, CapabilityWith, Text (with' k))]
        @ map (\<lambda>(field, v). (Entity c i, CapabilityNb field, v)) (nb k)
        @ [(Link c, UcanCapability, Entity c i)])"

text \<open>
  Modelled from the spec: a delegation yields its issuer, audience and expiration
  (\<open>Infinity\<close> when it has none), the facts of its capabilities and one
  \<open>ucan/proof\<close> edge per proof link.
\<close>

definition expiration_scalar :: "delegation \<Rightarrow> scalar" where
  "expiration_scalar d = (case expiration d of None \<Rightarrow> Infinity | Some t \<Rightarrow> Num t)"

definition delegation_facts :: "delegation \<Rightarrow> fact list" where
  "delegation_facts d =
     [(Link (cid d), UcanIssuer, Text (issuer d)),
      (Link (cid d), UcanAudience, Text (audience d)),
      (Link (cid d), UcanExpiration, expiration_scalar d)]
     @ concat (map (capability_facts (cid d)) (enumerate 0 (capabilities d)))
     @ map (\<lambda>p. (Link (cid d), UcanProof, Link p)) (proofs d)"

definition buildIndex :: "delegation list \<Rightarrow> fact list" where
  "buildIndex ds = concat (map delegation_facts ds)"

section \<open>Terms, clauses and their evaluation\<close>

text \<open>
  Modelled from the spec: the terms and clauses of the query engine (the library
  \<open>datalogia\<close> is not among the sources). A term is a variable, named by the number
  it was allocated under, or a constant. A clause is a match of a fact, a conjunction, a
  disjunction, a negation or a constraint on bound terms: a glob of a text against a
  pattern, an equality (the exact text constraint) and a comparison (the expiration
  filter \<open>expiration \<ge> time\<close>).
\<close>

datatype trm = Var nat | Const scalar

datatype clause =
    Match trm attribute trm
  | And clause clause
  | Or clause clause
  | Not clause
  | Glob trm trm
  | Is trm trm
  | NotLess trm trm

type_synonym bindings = "nat \<rightharpoonup> scalar"

datatype query_error = UnboundVariable

text \<open>
  Modelled from the spec: a glob pattern, in which \<open>*\<close> stands for any run of
  characters. \<open>glob_match pattern text\<close>.
\<close>

fun glob_match :: "string \<Rightarrow> string \<Rightarrow> bool" where
  "glob_match [] [] = True"
| "glob_match [] (c # t) = False"
| "glob_match (p # ps) [] = (p = CHR ''*'' \<and> glob_match ps [])"
| "glob_match (p # ps) (c # t) =
     (if p = CHR ''*'' then glob_match ps (c # t) \<or> glob_match (p # ps) t
      else p = c \<and> glob_match ps t)"

fun glob_scalar :: "scalar \<Rightarrow> scalar \<Rightarrow> bool" where
  "glob_scalar (Text text) (Text pattern) = glob_match pattern text"
| "glob_scalar _ _ = False"

text \<open>
  Modelled from the spec: the comparison \<open>expiration \<ge> time\<close>, in which
  \<open>Infinity\<close> is never less than a time.
\<close>

fun not_less :: "scalar \<Rightarrow> scalar \<Rightarrow> bool" where
  "not_less (Num x) (Num t) = (t \<le> x)"
| "not_less Infinity (Num t) = True"
| "not_less Infinity Infinity = True"
| "not_less _ _ = False"

text \<open>
  Modelled from the spec: a match unifies the entity and the value of a fact with its
  terms, extending the bindings; it fails where a variable is already bound to
  something else.
\<close>

fun resolve :: "bindings \<Rightarrow> trm \<Rightarrow> scalar option" where
  "resolve b (Const c) = Some c"
| "resolve b (Var x) = b x"

fun unify :: "trm \<Rightarrow> scalar \<Rightarrow> bindings \<Rightarrow> bindings option" where
  "unify (Const c) v b = (if c = v then Some b else None)"
| "unify (Var x) v b =
     (case b x of None \<Rightarrow> Some (b(x \<mapsto> v)) | Some w \<Rightarrow> if w = v then Some b else None)"

definition match_fact :: "trm \<Rightarrow> attribute \<Rightarrow> trm \<Rightarrow> bindings \<Rightarrow> fact \<Rightarrow> bindings option" where
  "match_fact e a v b f =
     (case f of (fe, fa, fv) \<Rightarrow>
        if fa = a
        then (case unify e fe b of None \<Rightarrow> None | Some b1 \<Rightarrow> unify v fv b1)
        else None)"

text \<open>
  Modelled from the spec: the evaluator. A conjunction evaluates its second clause
  under every binding of the first; a disjunction concatenates the results of both
  sides; a negation passes the binding through when its clause has no result, and is a
  construction error when the clause has a variable that is not yet bound; a constraint
  on an unbound term is a construction error too.
\<close>

fun collect :: "(query_error + 'a list) list \<Rightarrow> query_error + 'a list" where
  "collect [] = Inr []"
| "collect (r # rs) =
     (case r of
        Inl e \<Rightarrow> Inl e
      | Inr xs \<Rightarrow> (case collect rs of Inl e \<Rightarrow> Inl e | Inr ys \<Rightarrow> Inr (xs @ ys)))"

fun trm_vars :: "trm \<Rightarrow> nat list" where
  "trm_vars (Var x) = [x]"
| "trm_vars (Const c) = []"

primrec clause_vars :: "clause \<Rightarrow> nat list" where
  "clause_vars (Match e a v) = trm_vars e @ trm_vars v"
| "clause_vars (And x y) = clause_vars x @ clause_vars y"
| "clause_vars (Or x y) = clause_vars x @ clause_vars y"
| "clause_vars (Not x) = clause_vars x"
| "clause_vars (Glob t p) = trm_vars t @ trm_vars p"
| "clause_vars (Is t u) = trm_vars t @ trm_vars u"
| "clause_vars (NotLess t u) = trm_vars t @ trm_vars u"

definition constraint :: "(scalar \<Rightarrow> scalar \<Rightarrow> bool) \<Rightarrow> trm \<Rightarrow> trm \<Rightarrow> bindings \<Rightarrow> query_error + bindings list" where
  "constraint test t u b =
     (case resolve b t of
        None \<Rightarrow> Inl UnboundVariable
      | Some x \<Rightarrow>
          (case resolve b u of
             None \<Rightarrow> Inl UnboundVariable
           | Some y \<Rightarrow> Inr (if test x y then [b] else [])))"

primrec evaluate :: "fact list \<Rightarrow> clause \<Rightarrow> bindings \<Rightarrow> query_error + bindings list" where
  "evaluate db (Match e a v) = (\<lambda>b. Inr (List.map_filter (match_fact e a v b) db))"
| "evaluate db (And x y) =
     (\<lambda>b. case evaluate db x b of
             Inl err \<Rightarrow> Inl err
           | Inr bs \<Rightarrow> collect (map (evaluate db y) bs))"
| "evaluate db (Or x y) =
     (\<lambda>b. case evaluate db x b of
             Inl err \<Rightarrow> Inl err
           | Inr xs \<Rightarrow> (case evaluate db y b of Inl err \<Rightarrow> Inl err | Inr ys \<Rightarrow> Inr (xs @ ys)))"
| "evaluate db (Not x) =
     (\<lambda>b. if \<exists>v \<in> set (clause_vars x). b v = None then Inl UnboundVariable
           else (case evaluate db x b of
                   Inl err \<Rightarrow> Inl err
                 | Inr xs \<Rightarrow> Inr (if xs = [] then [b] else [])))"
| "evaluate db (Glob t p) = constraint glob_scalar t p"
| "evaluate db (Is t u) = constraint (=) t u"
| "evaluate db (NotLess t u) = constraint not_less t u"

text \<open>The \<open>where\<close> of a query is a list of clauses, all of which must hold.\<close>

primrec evaluate_all :: "fact list \<Rightarrow> clause list \<Rightarrow> bindings \<Rightarrow> query_error + bindings list" where
  "evaluate_all db [] = (\<lambda>b. Inr [b])"
| "evaluate_all db (c # cs) =
     (\<lambda>b. case evaluate db c b of
             Inl err \<Rightarrow> Inl err
           | Inr bs \<Rightarrow> collect (map (evaluate_all db cs) bs))"


section \<open>Domain matchers\<close>

text \<open>
  The matchers of \<open>agent/capability.js\<close>, \<open>agent/delegation.js\<close>,
  \<open>agent/attestation.js\<close> and \<open>agent/db/text.js\<close> are not among the sources. A
  matcher that needs a variable of its own takes the next free variable number and
  returns the next one after it.
\<close>

text \<open>
  Modelled from the spec: \<open>Capability.match\<close>, a capability entity whose \<open>can\<close> is
  the ability and whose \<open>with\<close> is the resource.
\<close>

definition Capability_match :: "trm \<Rightarrow> trm \<Rightarrow> trm \<Rightarrow> clause" where
  "Capability_match capability can_term subject =
     And (Match capability CapabilityCan can_term)
         (Match capability CapabilityWith subject)"

text \<open>
  Modelled from the spec: \<open>Delegation.match\<close>, the delegation has the capability, the
  audience and the issuer, and its expiration is not less than the time.
\<close>

definition Delegation_match :: "trm \<Rightarrow> trm \<Rightarrow> trm \<Rightarrow> trm \<Rightarrow> trm \<Rightarrow> nat \<Rightarrow> clause \<times> nat" where
  "Delegation_match delegation capability audience_term issuer_term time n =
     (let expiration_term = Var n in
      (And (Match delegation UcanCapability capability)
        (And (Match delegation UcanAudience audience_term)
          (And (Match delegation UcanIssuer issuer_term)
            (And (Match delegation UcanExpiration expiration_term)
                 (NotLess expiration_term time)))),
       Suc n))"

text \<open>
  Modelled from the spec: \<open>Delegation.forwards\<close>, a delegation match on a capability
  whose \<open>with\<close> is \<open>ucan:*\<close>.
\<close>

definition Delegation_forwards :: "trm \<Rightarrow> trm \<Rightarrow> trm \<Rightarrow> trm \<Rightarrow> trm \<Rightarrow> nat \<Rightarrow> clause \<times> nat" where
  "Delegation_forwards delegation issuer_term audience_term can_term time n =
     (let capability = Var n in
      case Delegation_match delegation capability audience_term issuer_term time (Suc n) of
        (matched, n') \<Rightarrow>
          (And (Capability_match capability can_term (Const (Text ''ucan:*''))) matched, n'))"

text \<open>
  Modelled from the spec: \<open>Delegation.issuedBy\<close> and \<open>Delegation.hasProof\<close>, the
  issuer of a delegation and an edge to one of its proofs.
\<close>

definition Delegation_issuedBy :: "trm \<Rightarrow> trm \<Rightarrow> clause" where
  "Delegation_issuedBy delegation subject = Match delegation UcanIssuer subject"

definition Delegation_hasProof :: "trm \<Rightarrow> trm \<Rightarrow> clause" where
  "Delegation_hasProof delegation proof_term = Match delegation UcanProof proof_term"

text \<open>
  Modelled from the spec: \<open>Attestation.match\<close>, a delegation to the audience with a
  \<open>ucan/attest\<close> capability whose \<open>nb.proof\<close> is the proof, unexpired at the time.
\<close>

definition Attestation_match :: "trm \<Rightarrow> trm \<Rightarrow> trm \<Rightarrow> trm \<Rightarrow> nat \<Rightarrow> clause \<times> nat" where
  "Attestation_match attestation proof_term time audience_term n =
     (let capability = Var n; expiration_term = Var (Suc n) in
      (And (Match attestation UcanAudience audience_term)
        (And (Match attestation UcanCapability capability)
          (And (Match capability CapabilityCan (Const (Text ''ucan/attest'')))
            (And (Match capability (CapabilityNb ''proof'') proof_term)
              (And (Match attestation UcanExpiration expiration_term)
                   (NotLess expiration_term time))))),
       Suc (Suc n)))"

text \<open>
  Modelled from the spec: \<open>Text.match\<close>, an exact text or a glob pattern.
\<close>

datatype text_constraint = Exact string | GlobOf string

fun Text_match :: "trm \<Rightarrow> text_constraint \<Rightarrow> clause" where
  "Text_match t (Exact s) = Is t (Const (Text s))"
| "Text_match t (GlobOf p) = Glob t (Const (Text p))"

section \<open>The authorization query (authorization/query.js)\<close>

text \<open>
  \<open>DB.and\<close> and \<open>DB.or\<close> take one clause or more; with one clause they are that
  clause.
\<close>

fun db_and :: "clause \<Rightarrow> clause list \<Rightarrow> clause" where
  "db_and x [] = x"
| "db_and x (y # ys) = And x (db_and y ys)"

fun db_or :: "clause \<Rightarrow> clause list \<Rightarrow> clause" where
  "db_or x [] = x"
| "db_or x (y # ys) = Or x (db_or y ys)"

text \<open>
  The selector of \<open>explicit\<close>, \<open>implicit\<close> and \<open>match\<close>: each field is a term, or
  is left out. A field that is left out defaults to a fresh variable
  (\<open>DB.string()\<close>, \<open>DB.integer()\<close>), allocated in the order of the destructuring
  pattern.
\<close>

record match_selector =
  m_audience :: "trm option"
  m_issuer :: "trm option"
  m_subject :: "trm option"
  m_can :: "trm option"
  m_time :: "trm option"

definition or_fresh :: "trm option \<Rightarrow> nat \<Rightarrow> trm \<times> nat" where
  "or_fresh given n = (case given of Some t \<Rightarrow> (t, n) | None \<Rightarrow> (Var n, Suc n))"

definition explicit :: "trm \<Rightarrow> match_selector \<Rightarrow> nat \<Rightarrow> clause \<times> nat" where
  "explicit delegation selector n0 =
     (case or_fresh (m_audience selector) n0 of (audience_term, n1) \<Rightarrow>
      case or_fresh (m_issuer selector) n1 of (issuer_term, n2) \<Rightarrow>
      case or_fresh (m_subject selector) n2 of (subject, n3) \<Rightarrow>
      case or_fresh (m_can selector) n3 of (can_term, n4) \<Rightarrow>
      case or_fresh (m_time selector) n4 of (time, n5) \<Rightarrow>
      let capability = Var n5 in
      case Delegation_match delegation capability audience_term issuer_term time (Suc n5) of
        (matched, n6) \<Rightarrow> (And (Capability_match capability can_term subject) matched, n6))"

definition implicit :: "trm \<Rightarrow> match_selector \<Rightarrow> nat \<Rightarrow> clause \<times> nat" where
  "implicit delegation selector n0 =
     (case or_fresh (m_subject selector) n0 of (subject, n1) \<Rightarrow>
      case or_fresh (m_can selector) n1 of (can_term, n2) \<Rightarrow>
      case or_fresh (m_time selector) n2 of (time, n3) \<Rightarrow>
      case or_fresh (m_audience selector) n3 of (audience_term, n4) \<Rightarrow>
      case or_fresh (m_issuer selector) n4 of (issuer_term, n5) \<Rightarrow>
      let proof_term = Var n5 in
      case Delegation_forwards delegation issuer_term audience_term can_term time (Suc n5) of
        (forwards, n6) \<Rightarrow>
      case explicit proof_term
             \<lparr>m_audience = Some issuer_term, m_issuer = None, m_subject = Some subject,
              m_can = Some can_term, m_time = Some time\<rparr> n6 of
        (explicit_proof, n7) \<Rightarrow>
          (db_and forwards
             [db_or (Delegation_issuedBy delegation subject)
                [db_and (Delegation_hasProof delegation proof_term) [db_or explicit_proof []]]],
           n7))"

definition match ::  "trm \<Rightarrow> match_selector \<Rightarrow> nat \<Rightarrow> clause \<times> nat" where
  "match delegation selector n0 =
     (case or_fresh (m_audience selector) n0 of (audience_term, n1) \<Rightarrow>
      case or_fresh (m_subject selector) n1 of (subject, n2) \<Rightarrow>
      case or_fresh (m_issuer selector) n2 of (issuer_term, n3) \<Rightarrow>
      case or_fresh (m_can selector) n3 of (can_term, n4) \<Rightarrow>
      case or_fresh (m_time selector) n4 of (time, n5) \<Rightarrow>
      let given = \<lparr>m_audience = Some audience_term, m_issuer = Some issuer_term,
                   m_subject = Some subject, m_can = Some can_term, m_time = Some time\<rparr> in
      case explicit delegation given n5 of (explicit_clause, n6) \<Rightarrow>
      case implicit delegation given n6 of (implicit_clause, n7) \<Rightarrow>
        (db_or explicit_clause [implicit_clause], n7))"

text \<open>
  The group of variables \<open>query\<close> builds for one requested ability, the shape of its
  \<open>select\<close>, and the query it returns.
\<close>

record proof_selector =
  p_issuer :: trm
  p_can :: trm
  p_proof :: trm
  p_attestation :: trm
  p_need :: "string option"

record select_shape =
  s_proofs :: "proof_selector list"
  s_subject :: trm
  s_audience :: trm

record query_shape =
  q_select :: select_shape
  q_where :: "clause list"

text \<open>
  The selector of \<open>query\<close>: \<open>can\<close> is given by its keys in the order of
  \<open>Object.keys\<close> (\<open>None\<close> when left out, which defaults to \<open>{}\<close>); the time,
  when left out, defaults to now (\<open>Date.now() / 1000\<close>, a parameter here).
\<close>

record selector =
  sel_audience :: text_constraint
  sel_can :: "string list option"
  sel_subject :: "text_constraint option"
  sel_time :: "int option"

fun map_fresh :: "('a \<Rightarrow> nat \<Rightarrow> 'b \<times> nat) \<Rightarrow> 'a list \<Rightarrow> nat \<Rightarrow> 'b list \<times> nat" where
  "map_fresh f [] n = ([], n)"
| "map_fresh f (x # xs) n =
     (case f x n of (y, n1) \<Rightarrow> case map_fresh f xs n1 of (ys, n2) \<Rightarrow> (y # ys, n2))"

text \<open>
  One group: \<open>issuer\<close>, \<open>can\<close>, \<open>proof\<close> and \<open>attestation\<close> are fresh
  variables; \<open>...(need && { need })\<close> keeps \<open>need\<close> only when it is a non-empty
  string (\<open>undefined\<close> and \<open>''\<close> are falsy).
\<close>

definition proof_group :: "string option \<Rightarrow> nat \<Rightarrow> proof_selector \<times> nat" where
  "proof_group need n =
     (\<lparr>p_issuer = Var n, p_can = Var (n + 1), p_proof = Var (n + 2), p_attestation = Var (n + 3),
       p_need = (case need of None \<Rightarrow> None | Some a \<Rightarrow> if a = [] then None else Some a)\<rparr>,
      n + 4)"

text \<open>
  The clause of one group: the match of the proof, constrained by the glob of
  \<open>need\<close> against the proof's ability when the group has a \<open>need\<close>, and the
  attestation clause \<open>DB.or(DB.not(glob(issuer, 'did:mailto:*')), Attestation.match(...))\<close>.
\<close>

definition attestations :: "proof_selector \<Rightarrow> trm \<Rightarrow> trm \<Rightarrow> nat \<Rightarrow> clause \<times> nat" where
  "attestations g time audience_term n =
     (case Attestation_match (p_attestation g) (p_proof g) time audience_term n of
        (attested, n') \<Rightarrow>
          (db_or (Not (Glob (p_issuer g) (Const (Text ''did:mailto:*'')))) [attested], n'))"

definition where_clause :: "trm \<Rightarrow> trm \<Rightarrow> trm \<Rightarrow> proof_selector \<Rightarrow> nat \<Rightarrow> clause \<times> nat" where
  "where_clause subject audience_term time g n =
     (case match (p_proof g)
             \<lparr>m_audience = Some audience_term, m_issuer = Some (p_issuer g),
              m_subject = Some subject, m_can = Some (p_can g), m_time = Some time\<rparr> n of
        (clause, n1) \<Rightarrow>
      case attestations g time audience_term n1 of (attested, n2) \<Rightarrow>
        (And (case p_need g of
                Some need \<Rightarrow> And clause (Glob (Const (Text need)) (p_can g))
              | None \<Rightarrow> clause)
             attested,
         n2))"

definition query_keys :: "selector \<Rightarrow> string list" where
  "query_keys selector = (case sel_can selector of None \<Rightarrow> [] | Some keys \<Rightarrow> keys)"

definition query_time :: "int \<Rightarrow> selector \<Rightarrow> int" where
  "query_time now selector = (case sel_time selector of None \<Rightarrow> now | Some t \<Rightarrow> t)"

definition query :: "int \<Rightarrow> selector \<Rightarrow> query_shape" where
  "query now selector =
     (let time = query_time now selector;
          subject = Var 0;
          audience_term = Var 1;
          need = query_keys selector
      in
      case map_fresh proof_group (if length need > 0 then map Some need else [None]) 2 of
        (groups, n1) \<Rightarrow>
      case map_fresh (where_clause subject audience_term (Const (Num time))) groups n1 of
        (clauses, n2) \<Rightarrow>
          \<lparr>q_select = \<lparr>s_proofs = groups, s_subject = subject, s_audience = audience_term\<rparr>,
           q_where = clauses @
             [Text_match subject (case sel_subject selector of None \<Rightarrow> GlobOf ''*'' | Some s \<Rightarrow> s),
              Text_match audience_term (sel_audience selector)]\<rparr>)"

text \<open>
  Modelled from the spec: \<open>DB.query\<close> evaluates the \<open>where\<close> of a query from the
  empty bindings and projects every resulting binding onto the \<open>select\<close>: one row
  per binding, in which a variable that was left unbound is \<open>None\<close>.
\<close>

record proof_row =
  pr_issuer :: "scalar option"
  pr_can :: "scalar option"
  pr_proof :: "scalar option"
  pr_attestation :: "scalar option"
  pr_need :: "string option"

record row =
  r_proofs :: "proof_row list"
  r_subject :: "scalar option"
  r_audience :: "scalar option"

definition select_group :: "bindings \<Rightarrow> proof_selector \<Rightarrow> proof_row" where
  "select_group b g =
     \<lparr>pr_issuer = resolve b (p_issuer g), pr_can = resolve b (p_can g),
      pr_proof = resolve b (p_proof g), pr_attestation = resolve b (p_attestation g),
      pr_need = p_need g\<rparr>"

definition select_row :: "select_shape \<Rightarrow> bindings \<Rightarrow> row" where
  "select_row s b =
     \<lparr>r_proofs = map (select_group b) (s_proofs s),
      r_subject = resolve b (s_subject s), r_audience = resolve b (s_audience s)\<rparr>"

definition DB_query :: "fact list \<Rightarrow> query_shape \<Rightarrow> query_error + row list" where
  "DB_query index q =
     (case evaluate_all index (q_where q) Map.empty of
        Inl err \<Rightarrow> Inl err
      | Inr bs \<Rightarrow> Inr (map (select_row (q_select q)) bs))"

text \<open>
  A clause accepts, over an index, when its evaluation from the empty bindings succeeds
  with at least one result.
\<close>

definition accepts :: "fact list \<Rightarrow> clause \<Rightarrow> bool" where
  "accepts db c = (case evaluate db c Map.empty of Inl err \<Rightarrow> False | Inr bs \<Rightarrow> bs \<noteq> [])"

text \<open>The rows of a query over the index of a delegation set.\<close>

definition find_rows :: "delegation list \<Rightarrow> int \<Rightarrow> selector \<Rightarrow> query_error + row list" where
  "find_rows ds now selector = DB_query (buildIndex ds) (query now selector)"



section \<open>Specification predicates\<close>

text \<open>When a clause holds under bindings: the declarative reading of the evaluator.\<close>

primrec holds :: "fact list \<Rightarrow> bindings \<Rightarrow> clause \<Rightarrow> bool" where
  "holds db b (Match e a v) =
     (\<exists>fe fv. (fe, a, fv) \<in> set db \<and> resolve b e = Some fe \<and> resolve b v = Some fv)"
| "holds db b (And x y) = (holds db b x \<and> holds db b y)"
| "holds db b (Or x y) = (holds db b x \<or> holds db b y)"
| "holds db b (Not x) = (\<not> holds db b x)"
| "holds db b (Glob t p) =
     (\<exists>x y. resolve b t = Some x \<and> resolve b p = Some y \<and> glob_scalar x y)"
| "holds db b (Is t u) = (\<exists>x. resolve b t = Some x \<and> resolve b u = Some x)"
| "holds db b (NotLess t u) =
     (\<exists>x y. resolve b t = Some x \<and> resolve b u = Some y \<and> not_less x y)"

text \<open>
  The variables a clause is sure to have bound, and whether it is well moded: every
  negation and every constraint only reads variables that are bound when it is reached.
\<close>

primrec bound_after :: "clause \<Rightarrow> nat set \<Rightarrow> nat set" where
  "bound_after (Match e a v) D = D \<union> set (trm_vars e) \<union> set (trm_vars v)"
| "bound_after (And x y) D = bound_after y (bound_after x D)"
| "bound_after (Or x y) D = bound_after x D \<inter> bound_after y D"
| "bound_after (Not x) D = D"
| "bound_after (Glob t p) D = D"
| "bound_after (Is t u) D = D"
| "bound_after (NotLess t u) D = D"

primrec well_moded :: "clause \<Rightarrow> nat set \<Rightarrow> bool" where
  "well_moded (Match e a v) D = True"
| "well_moded (And x y) D = (well_moded x D \<and> well_moded y (bound_after x D))"
| "well_moded (Or x y) D = (well_moded x D \<and> well_moded y D)"
| "well_moded (Not x) D = (set (clause_vars x) \<subseteq> D \<and> well_moded x D)"
| "well_moded (Glob t p) D = (set (trm_vars t) \<subseteq> D \<and> set (trm_vars p) \<subseteq> D)"
| "well_moded (Is t u) D = (set (trm_vars t) \<subseteq> D \<and> set (trm_vars u) \<subseteq> D)"
| "well_moded (NotLess t u) D = (set (trm_vars t) \<subseteq> D \<and> set (trm_vars u) \<subseteq> D)"


primrec well_moded_all :: "clause list \<Rightarrow> nat set \<Rightarrow> bool" where
  "well_moded_all [] D = True"
| "well_moded_all (c # cs) D = (well_moded c D \<and> well_moded_all cs (bound_after c D))"


text \<open>
  A delegation is unexpired at a time; it attests a link; a text satisfies a text
  constraint.
\<close>

definition unexpired :: "delegation \<Rightarrow> int \<Rightarrow> bool" where
  "unexpired d time = (case expiration d of None \<Rightarrow> True | Some t \<Rightarrow> time \<le> t)"

definition attests :: "delegation \<Rightarrow> string \<Rightarrow> bool" where
  "attests a c =
     (\<exists>k \<in> set (capabilities a). can k = ''ucan/attest'' \<and> (''proof'', Link c) \<in> set (nb k))"

fun text_satisfies :: "text_constraint \<Rightarrow> string \<Rightarrow> bool" where
  "text_satisfies (Exact s) x = (x = s)"
| "text_satisfies (GlobOf p) x = glob_match p x"


section \<open>Fixtures\<close>

text \<open>
  The delegations of the test suite, with fixed names: a space shares \<open>store/add\<close> with
  the agent; an account (a \<open>did:mailto\<close> principal) logs the agent in with a
  \<open>ucan:*\<close> delegation, backed by the recovery delegation of a space to the account;
  the agent forwards its own authority to a second agent, backed by the login; the
  service attests the login; and an account grants \<open>store/add\<close> on a space directly,
  with no attestation. Two more: a principal that does not own the space grants
  everything on it to the agent, and the agent relays its authority to a second agent
  with that grant as its proof. And the space shares every \<open>store/\<close> ability with the
  agent.
\<close>

definition fixture_grant :: delegation where
  "fixture_grant =
     \<lparr>cid = ''grant'', issuer = ''did:key:space'', audience = ''did:key:alice'',
      capabilities = [\<lparr>can = ''store/add'', with' = ''did:key:space'', nb = []\<rparr>],
      expiration = Some 100, proofs = []\<rparr>"

definition fixture_login :: delegation where
  "fixture_login =
     \<lparr>cid = ''login'', issuer = ''did:mailto:web.mail:alice'', audience = ''did:key:alice'',
      capabilities = [\<lparr>can = ''*'', with' = ''ucan:*'', nb = []\<rparr>],
      expiration = None, proofs = [''recovery'']\<rparr>"

definition fixture_recovery :: delegation where
  "fixture_recovery =
     \<lparr>cid = ''recovery'', issuer = ''did:key:space'', audience = ''did:mailto:web.mail:alice'',
      capabilities = [\<lparr>can = ''*'', with' = ''did:key:space'', nb = []\<rparr>],
      expiration = None, proofs = []\<rparr>"

definition fixture_forward :: delegation where
  "fixture_forward =
     \<lparr>cid = ''forward'', issuer = ''did:key:alice'', audience = ''did:key:bob'',
      capabilities = [\<lparr>can = ''*'', with' = ''ucan:*'', nb = []\<rparr>],
      expiration = None, proofs = [''login'']\<rparr>"

definition fixture_attestation :: delegation where
  "fixture_attestation =
     \<lparr>cid = ''attestation'', issuer = ''did:web:w3up'', audience = ''did:key:alice'',
      capabilities = [\<lparr>can = ''ucan/attest'', with' = ''did:web:w3up'',
                      nb = [(''proof'', Link ''login'')]\<rparr>],
      expiration = None, proofs = []\<rparr>"

definition fixture_mail_grant :: delegation where
  "fixture_mail_grant =
     \<lparr>cid = ''mailgrant'', issuer = ''did:mailto:web.mail:alice'', audience = ''did:key:alice'',
      capabilities = [\<lparr>can = ''store/add'', with' = ''did:key:space'', nb = []\<rparr>],
      expiration = Some 100, proofs = []\<rparr>"

definition fixture_stranger :: delegation where
  "fixture_stranger =
     \<lparr>cid = ''stranger'', issuer = ''did:key:mallory'', audience = ''did:key:alice'',
      capabilities = [\<lparr>can = ''*'', with' = ''did:key:space'', nb = []\<rparr>],
      expiration = None, proofs = []\<rparr>"

definition fixture_relay :: delegation where
  "fixture_relay =
     \<lparr>cid = ''relay'', issuer = ''did:key:alice'', audience = ''did:key:bob'',
      capabilities = [\<lparr>can = ''*'', with' = ''ucan:*'', nb = []\<rparr>],
      expiration = None, proofs = [''stranger'']\<rparr>"

definition fixture_wild :: delegation where
  "fixture_wild =
     \<lparr>cid = ''wild'', issuer = ''did:key:space'', audience = ''did:key:alice'',
      capabilities = [\<lparr>can = ''store/*'', with' = ''did:key:space'', nb = []\<rparr>],
      expiration = None, proofs = []\<rparr>"

definition fixture_selector :: selector where
  "fixture_selector =
     \<lparr>sel_audience = Exact ''did:key:alice'', sel_can = Some [''store/add''],
      sel_subject = None, sel_time = Some 50\<rparr>"

section \<open>Lemmas about the query engine\<close>

subsection \<open>Glob\<close>

lemma glob_match_star_skip: "glob_match ps t \<Longrightarrow> glob_match (CHR ''*'' # ps) t"
  by (cases t) auto

lemma glob_match_refl: "glob_match s s"
  by (induction s) (auto simp add: glob_match_star_skip)

lemma glob_match_any: "glob_match ''*'' t"
  by (induction t) auto

subsection \<open>Unification\<close>

lemma resolve_mono: "b \<subseteq>\<^sub>m b' \<Longrightarrow> resolve b t = Some s \<Longrightarrow> resolve b' t = Some s"
  by (cases t) (auto simp add: map_le_def dom_def)

lemma unify_sound:
  "unify t s b = Some b1 \<Longrightarrow> b \<subseteq>\<^sub>m b1 \<and> resolve b1 t = Some s"
  by (cases t) (auto simp add: map_le_def split: option.splits if_splits)

lemma unify_complete:
  "b \<subseteq>\<^sub>m b2 \<Longrightarrow> resolve b2 t = Some s \<Longrightarrow> \<exists>b1. unify t s b = Some b1 \<and> b1 \<subseteq>\<^sub>m b2"
  by (cases t) (auto simp add: map_le_def dom_def split: option.splits)

lemma resolve_vars: "resolve b t = Some s \<Longrightarrow> set (trm_vars t) \<subseteq> dom b"
  by (cases t) auto

lemma resolve_bound: "set (trm_vars t) \<subseteq> dom b \<Longrightarrow> \<exists>s. resolve b t = Some s"
  by (cases t) auto

lemma match_fact_sound:
  assumes "match_fact e a v b f = Some b'"
  shows "b \<subseteq>\<^sub>m b' \<and> (\<exists>fe fv. f = (fe, a, fv) \<and> resolve b' e = Some fe \<and> resolve b' v = Some fv)"
proof -
  obtain fe fa fv where f: "f = (fe, fa, fv)" by (cases f) auto
  from assms f have "fa = a \<and> (\<exists>b1. unify e fe b = Some b1 \<and> unify v fv b1 = Some b')"
    by (auto simp add: match_fact_def split: if_splits option.splits)
  then obtain b1 where u1: "unify e fe b = Some b1" and u2: "unify v fv b1 = Some b'" and fa: "fa = a"
    by blast
  from unify_sound[OF u1] unify_sound[OF u2]
  have "b \<subseteq>\<^sub>m b'" "resolve b' v = Some fv" "resolve b1 e = Some fe" "b1 \<subseteq>\<^sub>m b'"
    by (auto intro: map_le_trans)
  then show ?thesis using f fa resolve_mono by blast
qed

lemma match_fact_complete:
  assumes "b \<subseteq>\<^sub>m b2" "resolve b2 e = Some fe" "resolve b2 v = Some fv"
  shows "\<exists>b1. match_fact e a v b (fe, a, fv) = Some b1 \<and> b1 \<subseteq>\<^sub>m b2"
proof -
  from unify_complete[OF assms(1,2)] obtain b1 where u1: "unify e fe b = Some b1" "b1 \<subseteq>\<^sub>m b2" by blast
  from unify_complete[OF u1(2) assms(3)] obtain b3 where u2: "unify v fv b1 = Some b3" "b3 \<subseteq>\<^sub>m b2" by blast
  from u1 u2 show ?thesis by (simp add: match_fact_def)
qed

lemma set_map_filter: "y \<in> set (List.map_filter f xs) \<longleftrightarrow> (\<exists>x \<in> set xs. f x = Some y)"
  by (induction xs) (auto split: option.splits)

subsection \<open>Collecting results\<close>

lemma collect_Inl: "collect rs = Inl e \<Longrightarrow> Inl e \<in> set rs"
  by (induction rs) (auto split: sum.splits)

lemma collect_Inr:
  "collect rs = Inr bs \<Longrightarrow>
     (\<forall>r \<in> set rs. \<exists>xs. r = Inr xs) \<and> set bs = (\<Union>r \<in> set rs. case r of Inr xs \<Rightarrow> set xs | Inl e \<Rightarrow> {})"
  by (induction rs arbitrary: bs) (auto split: sum.splits)

lemma collect_total:
  assumes "\<forall>r \<in> set rs. \<exists>xs. r = Inr xs"
  shows "\<exists>bs. collect rs = Inr bs"
proof (cases "collect rs")
  case (Inl e)
  from collect_Inl[OF Inl] assms show ?thesis by auto
next
  case (Inr bs)
  then show ?thesis by blast
qed

lemma collect_map_member:
  assumes "collect (map f xs) = Inr bs"
  shows "b' \<in> set bs \<longleftrightarrow> (\<exists>x \<in> set xs. \<exists>ys. f x = Inr ys \<and> b' \<in> set ys)"
proof
  assume "b' \<in> set bs"
  with collect_Inr[OF assms] obtain r where r: "r \<in> set (map f xs)" "b' \<in> (case r of Inr xs \<Rightarrow> set xs | Inl e \<Rightarrow> {})"
    by auto
  then obtain x where "x \<in> set xs" "r = f x" by auto
  with r show "\<exists>x \<in> set xs. \<exists>ys. f x = Inr ys \<and> b' \<in> set ys"
    by (cases "f x") auto
next
  assume "\<exists>x \<in> set xs. \<exists>ys. f x = Inr ys \<and> b' \<in> set ys"
  then obtain x ys where "x \<in> set xs" "f x = Inr ys" "b' \<in> set ys" by blast
  with collect_Inr[OF assms] show "b' \<in> set bs" by force
qed

lemma collect_map_each:
  assumes "collect (map f xs) = Inr bs" "x \<in> set xs"
  shows "\<exists>ys. f x = Inr ys"
  using collect_Inr[OF assms(1)] assms(2) by auto

lemma collect_map_total:
  assumes "\<forall>x \<in> set xs. \<exists>ys. f x = Inr ys"
  shows "\<exists>bs. collect (map f xs) = Inr bs"
  using assms by (intro collect_total) auto


subsection \<open>Evaluation against satisfaction\<close>

lemma holds_coincide:
  "(\<forall>x \<in> set (clause_vars c). b x = b' x) \<Longrightarrow> holds db b c = holds db b' c"
proof (induction c)
  case (Match e a v)
  then have "resolve b e = resolve b' e" "resolve b v = resolve b' v"
    by (cases e; cases v; simp)+
  then show ?case by simp
next
  case (Glob t p)
  then have "resolve b t = resolve b' t" "resolve b p = resolve b' p"
    by (cases t; cases p; simp)+
  then show ?case by simp
next
  case (Is t p)
  then have "resolve b t = resolve b' t" "resolve b p = resolve b' p"
    by (cases t; cases p; simp)+
  then show ?case by simp
next
  case (NotLess t p)
  then have "resolve b t = resolve b' t" "resolve b p = resolve b' p"
    by (cases t; cases p; simp)+
  then show ?case by simp
qed auto

lemma constraint_sound:
  assumes "constraint test t u b = Inr bs" "b' \<in> set bs"
  shows "b' = b \<and> (\<exists>x y. resolve b t = Some x \<and> resolve b u = Some y \<and> test x y)"
  using assms by (auto simp add: constraint_def split: option.splits if_splits)

lemma constraint_complete:
  assumes "constraint test t u b = Inr bs" "b \<subseteq>\<^sub>m b2"
    "resolve b2 t = Some x" "resolve b2 u = Some y" "test x y"
  shows "b \<in> set bs"
proof -
  from assms(1) obtain x' y' where r: "resolve b t = Some x'" "resolve b u = Some y'"
    by (auto simp add: constraint_def split: option.splits)
  with assms(2,3,4) have "x' = x" "y' = y" using resolve_mono by fastforce+
  with r assms(1,5) show ?thesis by (auto simp add: constraint_def)
qed

lemma evaluate_sound_complete:
  "(\<forall>b bs b'. evaluate db c b = Inr bs \<longrightarrow> b' \<in> set bs \<longrightarrow>
       b \<subseteq>\<^sub>m b' \<and> (\<forall>b2. b' \<subseteq>\<^sub>m b2 \<longrightarrow> holds db b2 c))
   \<and> (\<forall>b bs b2. evaluate db c b = Inr bs \<longrightarrow> b \<subseteq>\<^sub>m b2 \<longrightarrow> holds db b2 c \<longrightarrow>
       (\<exists>b' \<in> set bs. b' \<subseteq>\<^sub>m b2))"
proof (induction c)
  case (Match e a v)
  show ?case
  proof (intro conjI allI impI)
    fix b bs b'
    assume "evaluate db (Match e a v) b = Inr bs" "b' \<in> set bs"
    then obtain f where f: "f \<in> set db" "match_fact e a v b f = Some b'"
      by (auto simp add: set_map_filter)
    from match_fact_sound[OF f(2)] f(1)
    show "b \<subseteq>\<^sub>m b'" by simp
    fix b2 assume "b' \<subseteq>\<^sub>m b2"
    with match_fact_sound[OF f(2)] f(1) show "holds db b2 (Match e a v)"
      using resolve_mono by fastforce
  next
    fix b bs b2
    assume ev: "evaluate db (Match e a v) b = Inr bs" and le: "b \<subseteq>\<^sub>m b2"
      and h: "holds db b2 (Match e a v)"
    from h obtain fe fv where f: "(fe, a, fv) \<in> set db" "resolve b2 e = Some fe" "resolve b2 v = Some fv"
      by auto
    from match_fact_complete[OF le f(2,3)] obtain b1 where
      "match_fact e a v b (fe, a, fv) = Some b1" "b1 \<subseteq>\<^sub>m b2" by blast
    with f(1) have "b1 \<in> set (List.map_filter (match_fact e a v b) db)"
      unfolding set_map_filter by blast
    with ev \<open>b1 \<subseteq>\<^sub>m b2\<close> show "\<exists>b' \<in> set bs. b' \<subseteq>\<^sub>m b2"
      by auto
  qed
next
  case (And x y)
  show ?case
  proof (intro conjI allI impI)
    fix b bs b'
    assume ev: "evaluate db (And x y) b = Inr bs" and mem: "b' \<in> set bs"
    from ev obtain xs where xs: "evaluate db x b = Inr xs" "collect (map (evaluate db y) xs) = Inr bs"
      by (auto split: sum.splits)
    from mem collect_map_member[OF xs(2)] obtain b1 ys where
      b1: "b1 \<in> set xs" "evaluate db y b1 = Inr ys" "b' \<in> set ys" by blast
    from And.IH(1) xs(1) b1(1) have x: "b \<subseteq>\<^sub>m b1" "\<forall>b2. b1 \<subseteq>\<^sub>m b2 \<longrightarrow> holds db b2 x" by blast+
    from And.IH(2) b1(2,3) have y: "b1 \<subseteq>\<^sub>m b'" "\<forall>b2. b' \<subseteq>\<^sub>m b2 \<longrightarrow> holds db b2 y" by blast+
    from x(1) y(1) show "b \<subseteq>\<^sub>m b'" by (rule map_le_trans)
    fix b2 assume "b' \<subseteq>\<^sub>m b2"
    with x(2) y show "holds db b2 (And x y)" by (auto intro: map_le_trans)
  next
    fix b bs b2
    assume ev: "evaluate db (And x y) b = Inr bs" and le: "b \<subseteq>\<^sub>m b2"
      and h: "holds db b2 (And x y)"
    from ev obtain xs where xs: "evaluate db x b = Inr xs" "collect (map (evaluate db y) xs) = Inr bs"
      by (auto split: sum.splits)
    from And.IH(1) xs(1) le h obtain b1 where b1: "b1 \<in> set xs" "b1 \<subseteq>\<^sub>m b2" by fastforce
    from collect_map_each[OF xs(2) b1(1)] obtain ys where ys: "evaluate db y b1 = Inr ys" by blast
    from And.IH(2) ys b1(2) h obtain b' where b': "b' \<in> set ys" "b' \<subseteq>\<^sub>m b2" by fastforce
    from b1(1) ys b'(1) collect_map_member[OF xs(2)] have "b' \<in> set bs" by blast
    with b'(2) show "\<exists>b' \<in> set bs. b' \<subseteq>\<^sub>m b2" by blast
  qed
next
  case (Or x y)
  show ?case
  proof (intro conjI allI impI)
    fix b bs b'
    assume ev: "evaluate db (Or x y) b = Inr bs" and mem: "b' \<in> set bs"
    from ev obtain xs ys where xs: "evaluate db x b = Inr xs" "evaluate db y b = Inr ys" "bs = xs @ ys"
      by (auto split: sum.splits)
    with mem Or.IH show "b \<subseteq>\<^sub>m b'" by (metis Un_iff set_append)
    fix b2 assume "b' \<subseteq>\<^sub>m b2"
    with xs mem Or.IH show "holds db b2 (Or x y)" by (metis Un_iff set_append holds.simps(3))
  next
    fix b bs b2
    assume ev: "evaluate db (Or x y) b = Inr bs" and le: "b \<subseteq>\<^sub>m b2"
      and h: "holds db b2 (Or x y)"
    from ev obtain xs ys where xs: "evaluate db x b = Inr xs" "evaluate db y b = Inr ys" "bs = xs @ ys"
      by (auto split: sum.splits)
    from h have "holds db b2 x \<or> holds db b2 y" by simp
    then show "\<exists>b' \<in> set bs. b' \<subseteq>\<^sub>m b2"
    proof
      assume "holds db b2 x"
      with Or.IH(1) xs(1) le obtain b' where "b' \<in> set xs" "b' \<subseteq>\<^sub>m b2" by fastforce
      with xs(3) show ?thesis by auto
    next
      assume "holds db b2 y"
      with Or.IH(2) xs(2) le obtain b' where "b' \<in> set ys" "b' \<subseteq>\<^sub>m b2" by fastforce
      with xs(3) show ?thesis by auto
    qed
  qed
next
  case (Not x)
  show ?case
  proof (intro conjI allI impI)
    fix b bs b'
    assume ev: "evaluate db (Not x) b = Inr bs" and mem: "b' \<in> set bs"
    from ev have bound: "\<forall>v \<in> set (clause_vars x). b v \<noteq> None"
      by (auto split: if_splits)
    from ev bound obtain xs where xs: "evaluate db x b = Inr xs" "bs = (if xs = [] then [b] else [])"
      by (auto split: sum.splits if_splits)
    from xs(2) mem have e: "xs = []" "b' = b" by (auto split: if_splits)
    then show "b \<subseteq>\<^sub>m b'" by simp
    fix b2 assume le: "b' \<subseteq>\<^sub>m b2"
    show "holds db b2 (Not x)"
    proof (rule ccontr)
      assume "\<not> holds db b2 (Not x)"
      then have "holds db b2 x" by simp
      with Not.IH xs(1) le e(2) have "\<exists>b1 \<in> set xs. b1 \<subseteq>\<^sub>m b2" by blast
      with e(1) show False by simp
    qed
  next
    fix b bs b2
    assume ev: "evaluate db (Not x) b = Inr bs" and le: "b \<subseteq>\<^sub>m b2"
      and h: "holds db b2 (Not x)"
    from ev have bound: "\<forall>v \<in> set (clause_vars x). b v \<noteq> None"
      by (auto split: if_splits)
    from ev bound obtain xs where xs: "evaluate db x b = Inr xs" "bs = (if xs = [] then [b] else [])"
      by (auto split: sum.splits if_splits)
    have "xs = []"
    proof (rule ccontr)
      assume "xs \<noteq> []"
      then obtain b1 where b1: "b1 \<in> set xs" by (cases xs) auto
      with Not.IH xs(1) have s0: "b \<subseteq>\<^sub>m b1 \<and> (\<forall>b2. b1 \<subseteq>\<^sub>m b2 \<longrightarrow> holds db b2 x)" by blast
      then have s: "b \<subseteq>\<^sub>m b1" "holds db b1 x" by (simp_all add: map_le_refl)
      have "\<forall>v \<in> set (clause_vars x). b1 v = b2 v"
      proof
        fix v assume "v \<in> set (clause_vars x)"
        with bound have "v \<in> dom b" by auto
        with s(1) le show "b1 v = b2 v" by (simp add: map_le_def)
      qed
      from holds_coincide[OF this] s(2) h show False by simp
    qed
    with xs(2) le show "\<exists>b' \<in> set bs. b' \<subseteq>\<^sub>m b2" by simp
  qed
next
  case (Glob t p)
  show ?case
  proof (intro conjI allI impI)
    fix b bs b'
    assume ev: "evaluate db (Glob t p) b = Inr bs" and mem: "b' \<in> set bs"
    from constraint_sound[of glob_scalar t p b bs b'] ev mem
    have c: "b' = b" "\<exists>x y. resolve b t = Some x \<and> resolve b p = Some y \<and> glob_scalar x y" by auto
    then show "b \<subseteq>\<^sub>m b'" by simp
    fix b2 assume "b' \<subseteq>\<^sub>m b2"
    with c show "holds db b2 (Glob t p)" using resolve_mono by fastforce
  next
    fix b bs b2
    assume ev: "evaluate db (Glob t p) b = Inr bs" and le: "b \<subseteq>\<^sub>m b2"
      and h: "holds db b2 (Glob t p)"
    from h obtain x y where "resolve b2 t = Some x" "resolve b2 p = Some y" "glob_scalar x y" by auto
    from constraint_complete[of glob_scalar t p b bs b2, OF _ le this] ev
    show "\<exists>b' \<in> set bs. b' \<subseteq>\<^sub>m b2" using le by auto
  qed
next
  case (Is t p)
  show ?case
  proof (intro conjI allI impI)
    fix b bs b'
    assume ev: "evaluate db (Is t p) b = Inr bs" and mem: "b' \<in> set bs"
    from constraint_sound[of "(=)" t p b bs b'] ev mem
    have c: "b' = b" "\<exists>x. resolve b t = Some x \<and> resolve b p = Some x" by auto
    then show "b \<subseteq>\<^sub>m b'" by simp
    fix b2 assume "b' \<subseteq>\<^sub>m b2"
    with c show "holds db b2 (Is t p)" using resolve_mono by fastforce
  next
    fix b bs b2
    assume ev: "evaluate db (Is t p) b = Inr bs" and le: "b \<subseteq>\<^sub>m b2"
      and h: "holds db b2 (Is t p)"
    from h obtain x where "resolve b2 t = Some x" "resolve b2 p = Some x" by auto
    from constraint_complete[of "(=)" t p b bs b2, OF _ le this] ev
    show "\<exists>b' \<in> set bs. b' \<subseteq>\<^sub>m b2" using le by auto
  qed
next
  case (NotLess t p)
  show ?case
  proof (intro conjI allI impI)
    fix b bs b'
    assume ev: "evaluate db (NotLess t p) b = Inr bs" and mem: "b' \<in> set bs"
    from constraint_sound[of not_less t p b bs b'] ev mem
    have c: "b' = b" "\<exists>x y. resolve b t = Some x \<and> resolve b p = Some y \<and> not_less x y" by auto
    then show "b \<subseteq>\<^sub>m b'" by simp
    fix b2 assume "b' \<subseteq>\<^sub>m b2"
    with c show "holds db b2 (NotLess t p)" using resolve_mono by fastforce
  next
    fix b bs b2
    assume ev: "evaluate db (NotLess t p) b = Inr bs" and le: "b \<subseteq>\<^sub>m b2"
      and h: "holds db b2 (NotLess t p)"
    from h obtain x y where "resolve b2 t = Some x" "resolve b2 p = Some y" "not_less x y" by auto
    from constraint_complete[of not_less t p b bs b2, OF _ le this] ev
    show "\<exists>b' \<in> set bs. b' \<subseteq>\<^sub>m b2" using le by auto
  qed
qed


lemma evaluate_sound:
  assumes "evaluate db c b = Inr bs" "b' \<in> set bs"
  shows "b \<subseteq>\<^sub>m b'" and "holds db b' c"
  using evaluate_sound_complete[of db c] assms by (blast intro: map_le_refl)+

lemma evaluate_complete:
  assumes "evaluate db c b = Inr bs" "b \<subseteq>\<^sub>m b2" "holds db b2 c"
  shows "\<exists>b' \<in> set bs. b' \<subseteq>\<^sub>m b2"
  using evaluate_sound_complete[of db c] assms by blast

lemma holds_mono_result:
  assumes "evaluate db c b = Inr bs" "b' \<in> set bs" "b' \<subseteq>\<^sub>m b2"
  shows "holds db b2 c"
  using evaluate_sound_complete[of db c] assms by blast

lemma evaluate_all_sound:
  "evaluate_all db cs b = Inr bs \<Longrightarrow> b' \<in> set bs \<Longrightarrow>
     b \<subseteq>\<^sub>m b' \<and> (\<forall>b2. b' \<subseteq>\<^sub>m b2 \<longrightarrow> (\<forall>c \<in> set cs. holds db b2 c))"
proof (induction cs arbitrary: b bs)
  case Nil
  then show ?case by auto
next
  case (Cons c cs)
  from Cons.prems(1) obtain xs where xs: "evaluate db c b = Inr xs"
    "collect (map (evaluate_all db cs) xs) = Inr bs"
    by (auto split: sum.splits)
  from Cons.prems(2) collect_map_member[OF xs(2)] obtain b1 ys where
    b1: "b1 \<in> set xs" "evaluate_all db cs b1 = Inr ys" "b' \<in> set ys" by blast
  from Cons.IH[OF b1(2,3)] have r: "b1 \<subseteq>\<^sub>m b'" "\<forall>b2. b' \<subseteq>\<^sub>m b2 \<longrightarrow> (\<forall>c \<in> set cs. holds db b2 c)"
    by blast+
  from evaluate_sound(1)[OF xs(1) b1(1)] r(1) have "b \<subseteq>\<^sub>m b'" by (rule map_le_trans)
  moreover have "\<forall>b2. b' \<subseteq>\<^sub>m b2 \<longrightarrow> holds db b2 c"
    using holds_mono_result[OF xs(1) b1(1)] r(1) by (blast intro: map_le_trans)
  ultimately show ?case using r(2) by simp
qed

lemma evaluate_all_complete:
  "evaluate_all db cs b = Inr bs \<Longrightarrow> b \<subseteq>\<^sub>m b2 \<Longrightarrow> \<forall>c \<in> set cs. holds db b2 c \<Longrightarrow>
     \<exists>b' \<in> set bs. b' \<subseteq>\<^sub>m b2"
proof (induction cs arbitrary: b bs)
  case Nil
  then show ?case by auto
next
  case (Cons c cs)
  from Cons.prems(1) obtain xs where xs: "evaluate db c b = Inr xs"
    "collect (map (evaluate_all db cs) xs) = Inr bs"
    by (auto split: sum.splits)
  from evaluate_complete[OF xs(1) Cons.prems(2)] Cons.prems(3)
  obtain b1 where b1: "b1 \<in> set xs" "b1 \<subseteq>\<^sub>m b2" by auto
  from collect_map_each[OF xs(2) b1(1)] obtain ys where ys: "evaluate_all db cs b1 = Inr ys" by blast
  from Cons.IH[OF ys b1(2)] Cons.prems(3) obtain b' where b': "b' \<in> set ys" "b' \<subseteq>\<^sub>m b2" by auto
  from b1(1) ys b'(1) collect_map_member[OF xs(2)] have "b' \<in> set bs" by blast
  with b'(2) show ?case by blast
qed

subsection \<open>Well-moded clauses evaluate without error\<close>

lemma match_fact_dom:
  assumes "match_fact e a v b f = Some b'"
  shows "dom b \<union> set (trm_vars e) \<union> set (trm_vars v) \<subseteq> dom b'"
proof -
  from match_fact_sound[OF assms] obtain fe fv where
    r: "b \<subseteq>\<^sub>m b'" "resolve b' e = Some fe" "resolve b' v = Some fv" by blast
  from r(1) have "dom b \<subseteq> dom b'" by (rule map_le_implies_dom_le)
  with resolve_vars[OF r(2)] resolve_vars[OF r(3)] show ?thesis by simp
qed

lemma constraint_total:
  assumes "set (trm_vars t) \<subseteq> D" "set (trm_vars u) \<subseteq> D" "D \<subseteq> dom b"
  shows "\<exists>bs. constraint test t u b = Inr bs \<and> (\<forall>b' \<in> set bs. D \<subseteq> dom b')"
proof -
  from assms resolve_bound[of t b] resolve_bound[of u b]
  obtain x y where "resolve b t = Some x" "resolve b u = Some y" by blast
  with assms(3) show ?thesis by (simp add: constraint_def)
qed

lemma well_moded_evaluate:
  "well_moded c D \<Longrightarrow> D \<subseteq> dom b \<Longrightarrow>
     \<exists>bs. evaluate db c b = Inr bs \<and> (\<forall>b' \<in> set bs. bound_after c D \<subseteq> dom b')"
proof (induction c arbitrary: D b)
  case (Match e a v)
  have "\<forall>b' \<in> set (List.map_filter (match_fact e a v b) db). bound_after (Match e a v) D \<subseteq> dom b'"
  proof
    fix b' assume "b' \<in> set (List.map_filter (match_fact e a v b) db)"
    then obtain f where "match_fact e a v b f = Some b'" unfolding set_map_filter by blast
    from match_fact_dom[OF this] have "dom b \<union> set (trm_vars e) \<union> set (trm_vars v) \<subseteq> dom b'" .
    with Match.prems(2) have "D \<union> set (trm_vars e) \<union> set (trm_vars v) \<subseteq> dom b'" by blast
    then show "bound_after (Match e a v) D \<subseteq> dom b'" by simp
  qed
  moreover have "evaluate db (Match e a v) b = Inr (List.map_filter (match_fact e a v b) db)" by simp
  ultimately show ?case by blast
next
  case (And x y)
  from And.prems have wx: "well_moded x D" and wy: "well_moded y (bound_after x D)" by simp_all
  from And.IH(1)[OF wx And.prems(2)] obtain xs where
    xs: "evaluate db x b = Inr xs" "\<forall>b1 \<in> set xs. bound_after x D \<subseteq> dom b1" by blast
  have each: "\<forall>b1 \<in> set xs. \<exists>ys. evaluate db y b1 = Inr ys"
  proof
    fix b1 assume "b1 \<in> set xs"
    with xs(2) have "bound_after x D \<subseteq> dom b1" by blast
    from And.IH(2)[OF wy this] show "\<exists>ys. evaluate db y b1 = Inr ys" by blast
  qed
  from collect_map_total[OF each] obtain bs where bs: "collect (map (evaluate db y) xs) = Inr bs"
    by blast
  have "\<forall>b' \<in> set bs. bound_after (And x y) D \<subseteq> dom b'"
  proof
    fix b' assume "b' \<in> set bs"
    with collect_map_member[OF bs] obtain b1 ys where
      b1: "b1 \<in> set xs" "evaluate db y b1 = Inr ys" "b' \<in> set ys" by blast
    from b1(1) xs(2) have "bound_after x D \<subseteq> dom b1" by blast
    from And.IH(2)[OF wy this] obtain ys' where
      "evaluate db y b1 = Inr ys'" "\<forall>b' \<in> set ys'. bound_after y (bound_after x D) \<subseteq> dom b'" by blast
    with b1(2,3) have "bound_after y (bound_after x D) \<subseteq> dom b'" by simp
    then show "bound_after (And x y) D \<subseteq> dom b'" by simp
  qed
  moreover from xs(1) bs have "evaluate db (And x y) b = Inr bs" by simp
  ultimately show ?case by blast
next
  case (Or x y)
  from Or.prems have wx: "well_moded x D" and wy: "well_moded y D" by simp_all
  from Or.IH(1)[OF wx Or.prems(2)] obtain xs where
    xs: "evaluate db x b = Inr xs" "\<forall>b1 \<in> set xs. bound_after x D \<subseteq> dom b1" by blast
  from Or.IH(2)[OF wy Or.prems(2)] obtain ys where
    ys: "evaluate db y b = Inr ys" "\<forall>b1 \<in> set ys. bound_after y D \<subseteq> dom b1" by blast
  have "\<forall>b' \<in> set (xs @ ys). bound_after (Or x y) D \<subseteq> dom b'"
  proof
    fix b' assume "b' \<in> set (xs @ ys)"
    then have "b' \<in> set xs \<or> b' \<in> set ys" by simp
    then show "bound_after (Or x y) D \<subseteq> dom b'"
    proof
      assume "b' \<in> set xs"
      with xs(2) have "bound_after x D \<subseteq> dom b'" by blast
      then show ?thesis by auto
    next
      assume "b' \<in> set ys"
      with ys(2) have "bound_after y D \<subseteq> dom b'" by blast
      then show ?thesis by auto
    qed
  qed
  moreover from xs(1) ys(1) have "evaluate db (Or x y) b = Inr (xs @ ys)" by simp
  ultimately show ?case by blast
next
  case (Not x)
  from Not.prems have vars: "set (clause_vars x) \<subseteq> D" and wx: "well_moded x D" by simp_all
  from Not.IH[OF wx Not.prems(2)] obtain xs where xs: "evaluate db x b = Inr xs" by blast
  from vars Not.prems(2) have nb: "\<not> (\<exists>v \<in> set (clause_vars x). b v = None)" by auto
  from xs nb have ev: "evaluate db (Not x) b = Inr (if xs = [] then [b] else [])" by simp
  have "\<forall>b' \<in> set (if xs = [] then [b] else []). bound_after (Not x) D \<subseteq> dom b'"
    using Not.prems(2) by (cases "xs = []") simp_all
  with ev show ?case by blast
next
  case (Glob t p)
  from Glob.prems(1) have v: "set (trm_vars t) \<subseteq> D" "set (trm_vars p) \<subseteq> D" by simp_all
  from constraint_total[OF v Glob.prems(2), of glob_scalar] show ?case by simp
next
  case (Is t p)
  from Is.prems(1) have v: "set (trm_vars t) \<subseteq> D" "set (trm_vars p) \<subseteq> D" by simp_all
  from constraint_total[OF v Is.prems(2), of "(=)"] show ?case by simp
next
  case (NotLess t p)
  from NotLess.prems(1) have v: "set (trm_vars t) \<subseteq> D" "set (trm_vars p) \<subseteq> D" by simp_all
  from constraint_total[OF v NotLess.prems(2), of not_less] show ?case by simp
qed

lemma bound_after_grows: "D \<subseteq> bound_after c D"
  by (induction c arbitrary: D) auto

lemma bound_after_mono: "D \<subseteq> D' \<Longrightarrow> bound_after c D \<subseteq> bound_after c D'"
proof (induction c arbitrary: D D')
  case (Or x y)
  from Or.IH(1)[OF Or.prems] Or.IH(2)[OF Or.prems] show ?case by auto
qed auto

lemma well_moded_mono: "well_moded c D \<Longrightarrow> D \<subseteq> D' \<Longrightarrow> well_moded c D'"
proof (induction c arbitrary: D D')
  case (And x y)
  then show ?case using bound_after_mono[of D D' x] by auto
qed auto

lemma well_moded_all_evaluate:
  "well_moded_all cs D \<Longrightarrow> D \<subseteq> dom b \<Longrightarrow> \<exists>bs. evaluate_all db cs b = Inr bs"
proof (induction cs arbitrary: D b)
  case Nil
  then show ?case by simp
next
  case (Cons c cs)
  from Cons.prems have wc: "well_moded c D" and ws: "well_moded_all cs (bound_after c D)" by simp_all
  from well_moded_evaluate[OF wc Cons.prems(2)] obtain xs where
    xs: "evaluate db c b = Inr xs" "\<forall>b1 \<in> set xs. bound_after c D \<subseteq> dom b1" by blast
  have "\<forall>b1 \<in> set xs. \<exists>ys. evaluate_all db cs b1 = Inr ys"
    using Cons.IH[OF ws] xs(2) by blast
  from collect_map_total[OF this] xs(1) show ?case by simp
qed


subsection \<open>The facts of a delegation set\<close>

lemma in_capability_facts:
  "(e, a, v) \<in> set (capability_facts c (i, k)) \<longleftrightarrow>
     (e = Entity c i \<and> a = CapabilityCan \<and> v = Text (can k))
   \<or> (e = Entity c i \<and> a = CapabilityWith \<and> v = Text (with' k))
   \<or> (e = Entity c i \<and> (\<exists>field. a = CapabilityNb field \<and> (field, v) \<in> set (nb k)))
   \<or> (e = Link c \<and> a = UcanCapability \<and> v = Entity c i)"
  unfolding capability_facts_def by (auto simp add: image_iff)

lemma in_delegation_facts:
  "(e, a, v) \<in> set (delegation_facts d) \<longleftrightarrow>
     (e = Link (cid d) \<and> a = UcanIssuer \<and> v = Text (issuer d))
   \<or> (e = Link (cid d) \<and> a = UcanAudience \<and> v = Text (audience d))
   \<or> (e = Link (cid d) \<and> a = UcanExpiration \<and> v = expiration_scalar d)
   \<or> (\<exists>i < length (capabilities d). (e, a, v) \<in> set (capability_facts (cid d) (i, capabilities d ! i)))
   \<or> (e = Link (cid d) \<and> a = UcanProof \<and> (\<exists>p \<in> set (proofs d). v = Link p))"
proof -
  have en: "\<And>P. (\<exists>ik \<in> set (enumerate 0 (capabilities d)). P ik)
              \<longleftrightarrow> (\<exists>i < length (capabilities d). P (i, capabilities d ! i))"
    by (auto simp add: in_set_enumerate_eq) 
  show ?thesis
    unfolding delegation_facts_def
    by (auto simp add: en image_iff)
qed

lemma index_issuer:
  "(e, UcanIssuer, v) \<in> set (buildIndex ds) \<longleftrightarrow>
     (\<exists>d \<in> set ds. e = Link (cid d) \<and> v = Text (issuer d))"
  unfolding buildIndex_def by (simp add: in_delegation_facts in_capability_facts)

lemma index_audience:
  "(e, UcanAudience, v) \<in> set (buildIndex ds) \<longleftrightarrow>
     (\<exists>d \<in> set ds. e = Link (cid d) \<and> v = Text (audience d))"
  unfolding buildIndex_def by (simp add: in_delegation_facts in_capability_facts)

lemma index_expiration:
  "(e, UcanExpiration, v) \<in> set (buildIndex ds) \<longleftrightarrow>
     (\<exists>d \<in> set ds. e = Link (cid d) \<and> v = expiration_scalar d)"
  unfolding buildIndex_def by (simp add: in_delegation_facts in_capability_facts)

lemma index_proof:
  "(e, UcanProof, v) \<in> set (buildIndex ds) \<longleftrightarrow>
     (\<exists>d \<in> set ds. e = Link (cid d) \<and> (\<exists>p \<in> set (proofs d). v = Link p))"
  unfolding buildIndex_def by (simp add: in_delegation_facts in_capability_facts)

lemma index_capability:
  "(e, UcanCapability, v) \<in> set (buildIndex ds) \<longleftrightarrow>
     (\<exists>d \<in> set ds. \<exists>i < length (capabilities d). e = Link (cid d) \<and> v = Entity (cid d) i)"
  unfolding buildIndex_def by (simp add: in_delegation_facts in_capability_facts)

lemma index_can:
  "(e, CapabilityCan, v) \<in> set (buildIndex ds) \<longleftrightarrow>
     (\<exists>d \<in> set ds. \<exists>i < length (capabilities d).
        e = Entity (cid d) i \<and> v = Text (can (capabilities d ! i)))"
  unfolding buildIndex_def by (simp add: in_delegation_facts in_capability_facts)

lemma index_with:
  "(e, CapabilityWith, v) \<in> set (buildIndex ds) \<longleftrightarrow>
     (\<exists>d \<in> set ds. \<exists>i < length (capabilities d).
        e = Entity (cid d) i \<and> v = Text (with' (capabilities d ! i)))"
  unfolding buildIndex_def by (simp add: in_delegation_facts in_capability_facts)

lemma index_nb_proof:
  "(e, CapabilityNb ''proof'', v) \<in> set (buildIndex ds) \<longleftrightarrow>
     (\<exists>d \<in> set ds. \<exists>i < length (capabilities d).
        e = Entity (cid d) i \<and> (''proof'', v) \<in> set (nb (capabilities d ! i)))"
  unfolding buildIndex_def by (simp add: in_delegation_facts in_capability_facts)

lemma same_cid:
  assumes "distinct (map cid ds)" "d \<in> set ds" "d' \<in> set ds" "cid d = cid d'"
  shows "d = d'"
  using assms by (meson distinct_map inj_onD)

lemma not_less_expiration: "not_less (expiration_scalar d) (Num t) = unexpired d t"
  by (simp add: expiration_scalar_def unexpired_def split: option.splits)


subsection \<open>What the domain matchers say about the delegations\<close>

lemma holds_issuer:
  "holds (buildIndex ds) b (Match e UcanIssuer v) \<longleftrightarrow>
     (\<exists>d \<in> set ds. resolve b e = Some (Link (cid d)) \<and> resolve b v = Some (Text (issuer d)))"
  unfolding holds.simps index_issuer by auto

lemma holds_audience:
  "holds (buildIndex ds) b (Match e UcanAudience v) \<longleftrightarrow>
     (\<exists>d \<in> set ds. resolve b e = Some (Link (cid d)) \<and> resolve b v = Some (Text (audience d)))"
  unfolding holds.simps index_audience by auto

lemma holds_expiration:
  "holds (buildIndex ds) b (Match e UcanExpiration v) \<longleftrightarrow>
     (\<exists>d \<in> set ds. resolve b e = Some (Link (cid d)) \<and> resolve b v = Some (expiration_scalar d))"
  unfolding holds.simps index_expiration by auto

lemma holds_proof:
  "holds (buildIndex ds) b (Match e UcanProof v) \<longleftrightarrow>
     (\<exists>d \<in> set ds. \<exists>p \<in> set (proofs d).
        resolve b e = Some (Link (cid d)) \<and> resolve b v = Some (Link p))"
  unfolding holds.simps index_proof by auto

lemma holds_capability:
  "holds (buildIndex ds) b (Match e UcanCapability v) \<longleftrightarrow>
     (\<exists>d \<in> set ds. \<exists>i < length (capabilities d).
        resolve b e = Some (Link (cid d)) \<and> resolve b v = Some (Entity (cid d) i))"
  unfolding holds.simps index_capability by auto

lemma holds_can:
  "holds (buildIndex ds) b (Match e CapabilityCan v) \<longleftrightarrow>
     (\<exists>d \<in> set ds. \<exists>i < length (capabilities d).
        resolve b e = Some (Entity (cid d) i) \<and> resolve b v = Some (Text (can (capabilities d ! i))))"
  unfolding holds.simps index_can by auto

lemma holds_with:
  "holds (buildIndex ds) b (Match e CapabilityWith v) \<longleftrightarrow>
     (\<exists>d \<in> set ds. \<exists>i < length (capabilities d).
        resolve b e = Some (Entity (cid d) i) \<and> resolve b v = Some (Text (with' (capabilities d ! i))))"
  unfolding holds.simps index_with by auto

lemma holds_nb_proof:
  "holds (buildIndex ds) b (Match e (CapabilityNb ''proof'') v) \<longleftrightarrow>
     (\<exists>d \<in> set ds. \<exists>i < length (capabilities d). \<exists>pv.
        resolve b e = Some (Entity (cid d) i) \<and> resolve b v = Some pv
        \<and> (''proof'', pv) \<in> set (nb (capabilities d ! i)))"
  unfolding holds.simps index_nb_proof by auto

lemma holds_NotLess_time:
  "holds db b (NotLess (Var n) (Const (Num t))) \<longleftrightarrow> (\<exists>x. b n = Some x \<and> not_less x (Num t))"
  by simp


lemma Delegation_match_clause:
  "fst (Delegation_match dlg cap aud iss time n) =
     And (Match dlg UcanCapability cap)
       (And (Match dlg UcanAudience aud)
         (And (Match dlg UcanIssuer iss)
           (And (Match dlg UcanExpiration (Var n)) (NotLess (Var n) time))))"
  and Delegation_match_next: "snd (Delegation_match dlg cap aud iss time n) = Suc n"
  by (simp_all add: Delegation_match_def Let_def)

lemma holds_Delegation_match:
  assumes dist: "distinct (map cid ds)"
  shows "holds (buildIndex ds) b (fst (Delegation_match dlg cap aud iss (Const (Num t)) n)) \<longleftrightarrow>
     (\<exists>d \<in> set ds. \<exists>i < length (capabilities d).
        resolve b dlg = Some (Link (cid d)) \<and> resolve b cap = Some (Entity (cid d) i)
        \<and> resolve b aud = Some (Text (audience d)) \<and> resolve b iss = Some (Text (issuer d))
        \<and> b n = Some (expiration_scalar d) \<and> unexpired d t)"
    (is "?L \<longleftrightarrow> ?R")
proof
  assume l: ?L
  then have parts:
    "holds (buildIndex ds) b (Match dlg UcanCapability cap)"
    "holds (buildIndex ds) b (Match dlg UcanAudience aud)"
    "holds (buildIndex ds) b (Match dlg UcanIssuer iss)"
    "holds (buildIndex ds) b (Match dlg UcanExpiration (Var n))"
    "holds (buildIndex ds) b (NotLess (Var n) (Const (Num t)))"
    unfolding Delegation_match_clause holds.simps(2) by blast+
  from parts(1) obtain d1 i where d1: "d1 \<in> set ds" "i < length (capabilities d1)"
    "resolve b dlg = Some (Link (cid d1))" "resolve b cap = Some (Entity (cid d1) i)"
    unfolding holds_capability by blast
  from parts(2) obtain d2 where d2: "d2 \<in> set ds" "resolve b dlg = Some (Link (cid d2))"
    "resolve b aud = Some (Text (audience d2))"
    unfolding holds_audience by blast
  from parts(3) obtain d3 where d3: "d3 \<in> set ds" "resolve b dlg = Some (Link (cid d3))"
    "resolve b iss = Some (Text (issuer d3))"
    unfolding holds_issuer by blast
  from parts(4) obtain d4 where d4: "d4 \<in> set ds" "resolve b dlg = Some (Link (cid d4))"
    "b n = Some (expiration_scalar d4)"
    unfolding holds_expiration by auto
  from parts(5) d4(3) have nl: "not_less (expiration_scalar d4) (Num t)"
    unfolding holds_NotLess_time by simp
  from d1(3) d2(2) d3(2) d4(2) have "cid d2 = cid d1" "cid d3 = cid d1" "cid d4 = cid d1" by simp_all
  with d1(1) d2(1) d3(1) d4(1) have e: "d2 = d1" "d3 = d1" "d4 = d1"
    using same_cid[OF dist] by blast+
  from nl e have "unexpired d1 t" by (simp add: not_less_expiration)
  with d1 d2(3) d3(3) d4(3) e show ?R by blast
next
  assume ?R
  then obtain d i where r:
    "d \<in> set ds" "i < length (capabilities d)" "resolve b dlg = Some (Link (cid d))"
    "resolve b cap = Some (Entity (cid d) i)" "resolve b aud = Some (Text (audience d))"
    "resolve b iss = Some (Text (issuer d))" "b n = Some (expiration_scalar d)" "unexpired d t"
    by blast
  from r have "holds (buildIndex ds) b (Match dlg UcanCapability cap)"
    unfolding holds_capability by blast
  moreover from r have "holds (buildIndex ds) b (Match dlg UcanAudience aud)"
    unfolding holds_audience by blast
  moreover from r have "holds (buildIndex ds) b (Match dlg UcanIssuer iss)"
    unfolding holds_issuer by blast
  moreover from r have "holds (buildIndex ds) b (Match dlg UcanExpiration (Var n))"
    unfolding holds_expiration by auto
  moreover from r have "holds (buildIndex ds) b (NotLess (Var n) (Const (Num t)))"
    unfolding holds_NotLess_time by (simp add: not_less_expiration)
  ultimately show ?L unfolding Delegation_match_clause holds.simps(2) by blast
qed

lemma holds_Capability_match:
  assumes dist: "distinct (map cid ds)"
  shows "holds (buildIndex ds) b (Capability_match cap cn subj) \<longleftrightarrow>
     (\<exists>d \<in> set ds. \<exists>i < length (capabilities d).
        resolve b cap = Some (Entity (cid d) i)
        \<and> resolve b cn = Some (Text (can (capabilities d ! i)))
        \<and> resolve b subj = Some (Text (with' (capabilities d ! i))))"
    (is "?L \<longleftrightarrow> ?R")
proof
  assume l: ?L
  then have parts:
    "holds (buildIndex ds) b (Match cap CapabilityCan cn)"
    "holds (buildIndex ds) b (Match cap CapabilityWith subj)"
    unfolding Capability_match_def holds.simps(2) by blast+
  from parts(1) obtain d1 i where d1: "d1 \<in> set ds" "i < length (capabilities d1)"
    "resolve b cap = Some (Entity (cid d1) i)" "resolve b cn = Some (Text (can (capabilities d1 ! i)))"
    unfolding holds_can by blast
  from parts(2) obtain d2 j where d2: "d2 \<in> set ds" "j < length (capabilities d2)"
    "resolve b cap = Some (Entity (cid d2) j)" "resolve b subj = Some (Text (with' (capabilities d2 ! j)))"
    unfolding holds_with by blast
  from d1(3) d2(3) have "cid d2 = cid d1" "j = i" by simp_all
  with d1(1) d2(1) have "d2 = d1" using same_cid[OF dist] by blast
  with d1 d2 \<open>j = i\<close> show ?R by blast
next
  assume ?R
  then obtain d i where r: "d \<in> set ds" "i < length (capabilities d)"
    "resolve b cap = Some (Entity (cid d) i)"
    "resolve b cn = Some (Text (can (capabilities d ! i)))"
    "resolve b subj = Some (Text (with' (capabilities d ! i)))" by blast
  from r have "holds (buildIndex ds) b (Match cap CapabilityCan cn)"
    unfolding holds_can by blast
  moreover from r have "holds (buildIndex ds) b (Match cap CapabilityWith subj)"
    unfolding holds_with by blast
  ultimately show ?L unfolding Capability_match_def holds.simps(2) by blast
qed


subsection \<open>The clauses that query.js builds\<close>

lemma explicit_given:
  "explicit dlg \<lparr>m_audience = Some A, m_issuer = Some I, m_subject = Some S, m_can = Some C,
                 m_time = Some T\<rparr> n =
     (And (Capability_match (Var n) C S) (fst (Delegation_match dlg (Var n) A I T (Suc n))),
      Suc (Suc n))"
  by (simp add: explicit_def or_fresh_def Delegation_match_def Let_def)

lemma explicit_fresh_issuer:
  "explicit dlg \<lparr>m_audience = Some A, m_issuer = None, m_subject = Some S, m_can = Some C,
                 m_time = Some T\<rparr> n =
     (And (Capability_match (Var (Suc n)) C S)
          (fst (Delegation_match dlg (Var (Suc n)) A (Var n) T (Suc (Suc n)))),
      Suc (Suc (Suc n)))"
  by (simp add: explicit_def or_fresh_def Delegation_match_def Let_def)

lemma Delegation_forwards_clause:
  "Delegation_forwards dlg I A C T n =
     (And (Capability_match (Var n) C (Const (Text ''ucan:*'')))
          (fst (Delegation_match dlg (Var n) A I T (Suc n))),
      Suc (Suc n))"
  by (simp add: Delegation_forwards_def Delegation_match_def Let_def)

lemma implicit_given:
  "implicit dlg \<lparr>m_audience = Some A, m_issuer = Some I, m_subject = Some S, m_can = Some C,
                 m_time = Some T\<rparr> n =
     (And (fst (Delegation_forwards dlg I A C T (Suc n)))
        (Or (Delegation_issuedBy dlg S)
            (And (Delegation_hasProof dlg (Var n))
                 (fst (explicit (Var n)
                        \<lparr>m_audience = Some I, m_issuer = None, m_subject = Some S, m_can = Some C,
                         m_time = Some T\<rparr> (n + 3))))),
      n + 6)"
  by (simp add: implicit_def or_fresh_def Delegation_forwards_clause explicit_fresh_issuer Let_def
        eval_nat_numeral)

lemma match_given:
  "match dlg \<lparr>m_audience = Some A, m_issuer = Some I, m_subject = Some S, m_can = Some C,
              m_time = Some T\<rparr> n =
     (Or (fst (explicit dlg \<lparr>m_audience = Some A, m_issuer = Some I, m_subject = Some S,
                            m_can = Some C, m_time = Some T\<rparr> n))
         (fst (implicit dlg \<lparr>m_audience = Some A, m_issuer = Some I, m_subject = Some S,
                            m_can = Some C, m_time = Some T\<rparr> (n + 2))),
      n + 8)"
  by (simp add: match_def or_fresh_def explicit_given implicit_given Let_def eval_nat_numeral)

lemma Attestation_match_clause:
  "Attestation_match att prf T A n =
     (And (Match att UcanAudience A)
        (And (Match att UcanCapability (Var n))
          (And (Match (Var n) CapabilityCan (Const (Text ''ucan/attest'')))
            (And (Match (Var n) (CapabilityNb ''proof'') prf)
              (And (Match att UcanExpiration (Var (Suc n))) (NotLess (Var (Suc n)) T))))),
      Suc (Suc n))"
  by (simp add: Attestation_match_def Let_def)

lemma attestations_clause:
  "attestations g T A n =
     (Or (Not (Glob (p_issuer g) (Const (Text ''did:mailto:*''))))
         (fst (Attestation_match (p_attestation g) (p_proof g) T A n)),
      Suc (Suc n))"
  by (simp add: attestations_def Attestation_match_clause)

lemma where_clause_shape:
  "where_clause S A T g n =
     (And (case p_need g of
             Some need \<Rightarrow>
               And (fst (match (p_proof g)
                     \<lparr>m_audience = Some A, m_issuer = Some (p_issuer g), m_subject = Some S,
                      m_can = Some (p_can g), m_time = Some T\<rparr> n))
                   (Glob (Const (Text need)) (p_can g))
           | None \<Rightarrow>
               fst (match (p_proof g)
                     \<lparr>m_audience = Some A, m_issuer = Some (p_issuer g), m_subject = Some S,
                      m_can = Some (p_can g), m_time = Some T\<rparr> n))
          (fst (attestations g T A (n + 8))),
      n + 10)"
  by (cases "p_need g") (simp_all add: where_clause_def match_given attestations_clause eval_nat_numeral)

subsection \<open>Explicit and implicit matches, in terms of the delegations\<close>

lemma holds_explicit_core:
  assumes dist: "distinct (map cid ds)"
  shows "holds (buildIndex ds) b
           (And (Capability_match (Var k) C S)
                (fst (Delegation_match dlg (Var k) A I (Const (Num t)) m))) \<longleftrightarrow>
     (\<exists>d \<in> set ds. \<exists>i < length (capabilities d).
        resolve b dlg = Some (Link (cid d)) \<and> b k = Some (Entity (cid d) i)
        \<and> resolve b C = Some (Text (can (capabilities d ! i)))
        \<and> resolve b S = Some (Text (with' (capabilities d ! i)))
        \<and> resolve b A = Some (Text (audience d)) \<and> resolve b I = Some (Text (issuer d))
        \<and> b m = Some (expiration_scalar d) \<and> unexpired d t)"
    (is "?L \<longleftrightarrow> ?R")
proof
  assume ?L
  then have c: "holds (buildIndex ds) b (Capability_match (Var k) C S)"
    and dm: "holds (buildIndex ds) b (fst (Delegation_match dlg (Var k) A I (Const (Num t)) m))"
    by simp_all
  from c obtain d1 i where d1: "d1 \<in> set ds" "i < length (capabilities d1)"
    "b k = Some (Entity (cid d1) i)"
    "resolve b C = Some (Text (can (capabilities d1 ! i)))"
    "resolve b S = Some (Text (with' (capabilities d1 ! i)))"
    unfolding holds_Capability_match[OF dist] by auto
  from dm obtain d2 j where d2: "d2 \<in> set ds" "j < length (capabilities d2)"
    "resolve b dlg = Some (Link (cid d2))" "b k = Some (Entity (cid d2) j)"
    "resolve b A = Some (Text (audience d2))" "resolve b I = Some (Text (issuer d2))"
    "b m = Some (expiration_scalar d2)" "unexpired d2 t"
    unfolding holds_Delegation_match[OF dist] by auto
  from d1(3) d2(4) have "cid d2 = cid d1" by simp
  with d1(1) d2(1) have "d2 = d1" using same_cid[OF dist] by blast
  with d1 d2 show ?R by blast
next
  assume ?R
  then obtain d i where r: "d \<in> set ds" "i < length (capabilities d)"
    "resolve b dlg = Some (Link (cid d))" "b k = Some (Entity (cid d) i)"
    "resolve b C = Some (Text (can (capabilities d ! i)))"
    "resolve b S = Some (Text (with' (capabilities d ! i)))"
    "resolve b A = Some (Text (audience d))" "resolve b I = Some (Text (issuer d))"
    "b m = Some (expiration_scalar d)" "unexpired d t" by blast
  from r have "holds (buildIndex ds) b (Capability_match (Var k) C S)"
    unfolding holds_Capability_match[OF dist] by auto
  moreover from r have "holds (buildIndex ds) b (fst (Delegation_match dlg (Var k) A I (Const (Num t)) m))"
    unfolding holds_Delegation_match[OF dist] by auto
  ultimately show ?L by simp
qed


lemma holds_match_sound:
  assumes dist: "distinct (map cid ds)"
    and h: "holds (buildIndex ds) b
              (fst (match dlg \<lparr>m_audience = Some A, m_issuer = Some I, m_subject = Some S,
                               m_can = Some C, m_time = Some (Const (Num t))\<rparr> n))"
  shows "\<exists>d \<in> set ds. resolve b dlg = Some (Link (cid d)) \<and> resolve b A = Some (Text (audience d))
           \<and> resolve b I = Some (Text (issuer d)) \<and> unexpired d t"
proof -
  from h have "holds (buildIndex ds) b
                 (And (Capability_match (Var n) C S)
                      (fst (Delegation_match dlg (Var n) A I (Const (Num t)) (Suc n))))
             \<or> holds (buildIndex ds) b
                 (And (Capability_match (Var (Suc (n + 2))) C (Const (Text ''ucan:*'')))
                      (fst (Delegation_match dlg (Var (Suc (n + 2))) A I (Const (Num t))
                             (Suc (Suc (n + 2))))))"
    by (auto simp add: match_given explicit_given implicit_given Delegation_forwards_clause)
  then show ?thesis
    unfolding holds_explicit_core[OF dist] by blast
qed

lemma holds_Attestation_match:
  assumes dist: "distinct (map cid ds)"
  shows "holds (buildIndex ds) b (fst (Attestation_match att prf (Const (Num t)) A n)) \<longleftrightarrow>
     (\<exists>a \<in> set ds. \<exists>i < length (capabilities a). \<exists>pv.
        resolve b att = Some (Link (cid a)) \<and> resolve b A = Some (Text (audience a))
        \<and> b n = Some (Entity (cid a) i) \<and> can (capabilities a ! i) = ''ucan/attest''
        \<and> resolve b prf = Some pv \<and> (''proof'', pv) \<in> set (nb (capabilities a ! i))
        \<and> b (Suc n) = Some (expiration_scalar a) \<and> unexpired a t)"
    (is "?L \<longleftrightarrow> ?R")
proof
  assume ?L
  then have parts:
    "holds (buildIndex ds) b (Match att UcanAudience A)"
    "holds (buildIndex ds) b (Match att UcanCapability (Var n))"
    "holds (buildIndex ds) b (Match (Var n) CapabilityCan (Const (Text ''ucan/attest'')))"
    "holds (buildIndex ds) b (Match (Var n) (CapabilityNb ''proof'') prf)"
    "holds (buildIndex ds) b (Match att UcanExpiration (Var (Suc n)))"
    "holds (buildIndex ds) b (NotLess (Var (Suc n)) (Const (Num t)))"
    unfolding Attestation_match_clause fst_conv holds.simps(2) by blast+
  from parts(1) obtain a1 where a1: "a1 \<in> set ds" "resolve b att = Some (Link (cid a1))"
    "resolve b A = Some (Text (audience a1))"
    unfolding holds_audience by blast
  from parts(2) obtain a2 i where a2: "a2 \<in> set ds" "i < length (capabilities a2)"
    "resolve b att = Some (Link (cid a2))" "b n = Some (Entity (cid a2) i)"
    unfolding holds_capability by auto
  from parts(3) obtain a3 j where a3: "a3 \<in> set ds" "j < length (capabilities a3)"
    "b n = Some (Entity (cid a3) j)" "can (capabilities a3 ! j) = ''ucan/attest''"
    unfolding holds_can by auto
  from parts(4) obtain a4 k pv where a4: "a4 \<in> set ds" "k < length (capabilities a4)"
    "b n = Some (Entity (cid a4) k)" "resolve b prf = Some pv"
    "(''proof'', pv) \<in> set (nb (capabilities a4 ! k))"
    unfolding holds_nb_proof by auto
  from parts(5) obtain a5 where a5: "a5 \<in> set ds" "resolve b att = Some (Link (cid a5))"
    "b (Suc n) = Some (expiration_scalar a5)"
    unfolding holds_expiration by auto
  from parts(6) a5(3) have nl: "not_less (expiration_scalar a5) (Num t)"
    unfolding holds_NotLess_time by simp
  from a1(2) a2(3,4) a3(3) a4(3) a5(2)
  have "cid a2 = cid a1" "cid a3 = cid a1" "cid a4 = cid a1" "cid a5 = cid a1" "j = i" "k = i"
    by simp_all
  with a1(1) a2(1) a3(1) a4(1) a5(1) have e: "a2 = a1" "a3 = a1" "a4 = a1" "a5 = a1"
    using same_cid[OF dist] by blast+
  from nl e have "unexpired a1 t" by (simp add: not_less_expiration)
  with a1 a2 a3 a4 a5 e \<open>j = i\<close> \<open>k = i\<close> show ?R by blast
next
  assume ?R
  then obtain a i pv where r: "a \<in> set ds" "i < length (capabilities a)"
    "resolve b att = Some (Link (cid a))" "resolve b A = Some (Text (audience a))"
    "b n = Some (Entity (cid a) i)" "can (capabilities a ! i) = ''ucan/attest''"
    "resolve b prf = Some pv" "(''proof'', pv) \<in> set (nb (capabilities a ! i))"
    "b (Suc n) = Some (expiration_scalar a)" "unexpired a t" by blast
  from r have "holds (buildIndex ds) b (Match att UcanAudience A)"
    unfolding holds_audience by blast
  moreover from r have "holds (buildIndex ds) b (Match att UcanCapability (Var n))"
    unfolding holds_capability by auto
  moreover from r have "holds (buildIndex ds) b (Match (Var n) CapabilityCan (Const (Text ''ucan/attest'')))"
    unfolding holds_can by auto
  moreover from r have "holds (buildIndex ds) b (Match (Var n) (CapabilityNb ''proof'') prf)"
    unfolding holds_nb_proof by auto
  moreover from r have "holds (buildIndex ds) b (Match att UcanExpiration (Var (Suc n)))"
    unfolding holds_expiration by auto
  moreover from r have "holds (buildIndex ds) b (NotLess (Var (Suc n)) (Const (Num t)))"
    unfolding holds_NotLess_time by (simp add: not_less_expiration)
  ultimately show ?L unfolding Attestation_match_clause fst_conv holds.simps(2) by blast
qed

lemma holds_Text_match:
  "holds db b (Text_match t c) \<longleftrightarrow>
     (\<exists>x. resolve b t = Some x \<and>
        (case c of Exact s \<Rightarrow> x = Text s | GlobOf p \<Rightarrow> glob_scalar x (Text p)))"
  by (cases c) auto

lemma map_fresh_nth:
  "map_fresh f xs n = (ys, n') \<Longrightarrow>
     length ys = length xs \<and> (\<forall>i < length xs. \<exists>m. ys ! i = fst (f (xs ! i) m))"
proof (induction xs arbitrary: n ys n')
  case Nil
  then show ?case by simp
next
  case (Cons x xs)
  obtain y n1 where y: "f x n = (y, n1)" by (cases "f x n") auto
  obtain zs n2 where zs: "map_fresh f xs n1 = (zs, n2)" by (cases "map_fresh f xs n1") auto
  from Cons.prems y zs have ys: "ys = y # zs" by simp
  from Cons.IH[OF zs] have ih: "length zs = length xs"
    "\<forall>i < length xs. \<exists>m. zs ! i = fst (f (xs ! i) m)" by blast+
  have "\<forall>i < length (x # xs). \<exists>m. ys ! i = fst (f ((x # xs) ! i) m)"
  proof (intro allI impI)
    fix i assume "i < length (x # xs)"
    show "\<exists>m. ys ! i = fst (f ((x # xs) ! i) m)"
    proof (cases i)
      case 0
      with y ys show ?thesis by (metis fst_conv nth_Cons_0)
    next
      case (Suc j)
      with \<open>i < length (x # xs)\<close> ih(2) ys show ?thesis by simp
    qed
  qed
  with ys ih(1) show ?case by simp
qed

lemma query_parts:
  "\<exists>groups clauses n1 n2.
     map_fresh proof_group
       (if length (query_keys selector) > 0 then map Some (query_keys selector) else [None]) 2
       = (groups, n1)
     \<and> map_fresh (where_clause (Var 0) (Var 1) (Const (Num (query_time now selector)))) groups n1
       = (clauses, n2)
     \<and> query now selector =
         \<lparr>q_select = \<lparr>s_proofs = groups, s_subject = Var 0, s_audience = Var 1\<rparr>,
          q_where = clauses @
            [Text_match (Var 0) (case sel_subject selector of None \<Rightarrow> GlobOf ''*'' | Some s \<Rightarrow> s),
             Text_match (Var 1) (sel_audience selector)]\<rparr>"
  by (simp add: query_def Let_def split: prod.splits)


subsection \<open>Every group of every row is backed by the delegations\<close>

lemma holds_where_clause_sound:
  assumes dist: "distinct (map cid ds)"
    and h: "holds (buildIndex ds) b (fst (where_clause S A (Const (Num t)) g n))"
  shows "\<exists>d \<in> set ds. resolve b (p_proof g) = Some (Link (cid d))
           \<and> resolve b A = Some (Text (audience d))
           \<and> resolve b (p_issuer g) = Some (Text (issuer d)) \<and> unexpired d t
           \<and> (glob_match ''did:mailto:*'' (issuer d) \<longrightarrow>
                (\<exists>a \<in> set ds. resolve b (p_attestation g) = Some (Link (cid a))
                   \<and> attests a (cid d) \<and> audience a = audience d \<and> unexpired a t))"
proof -
  from h have m: "holds (buildIndex ds) b
        (fst (match (p_proof g)
               \<lparr>m_audience = Some A, m_issuer = Some (p_issuer g), m_subject = Some S,
                m_can = Some (p_can g), m_time = Some (Const (Num t))\<rparr> n))"
    and at: "holds (buildIndex ds) b (fst (attestations g (Const (Num t)) A (n + 8)))"
    by (cases "p_need g"; simp add: where_clause_shape)+
  from holds_match_sound[OF dist m] obtain d where d: "d \<in> set ds"
    "resolve b (p_proof g) = Some (Link (cid d))" "resolve b A = Some (Text (audience d))"
    "resolve b (p_issuer g) = Some (Text (issuer d))" "unexpired d t" by blast
  have "\<exists>a \<in> set ds. resolve b (p_attestation g) = Some (Link (cid a))
           \<and> attests a (cid d) \<and> audience a = audience d \<and> unexpired a t"
    if mailto: "glob_match ''did:mailto:*'' (issuer d)"
  proof -
    from mailto d(4) have "holds (buildIndex ds) b (Glob (p_issuer g) (Const (Text ''did:mailto:*'')))"
      by simp
    with at have "holds (buildIndex ds) b
        (fst (Attestation_match (p_attestation g) (p_proof g) (Const (Num t)) A (n + 8)))"
      unfolding attestations_clause fst_conv holds.simps(3,4) by blast
    then obtain a i pv where a: "a \<in> set ds" "i < length (capabilities a)"
      "resolve b (p_attestation g) = Some (Link (cid a))" "resolve b A = Some (Text (audience a))"
      "can (capabilities a ! i) = ''ucan/attest''" "resolve b (p_proof g) = Some pv"
      "(''proof'', pv) \<in> set (nb (capabilities a ! i))" "unexpired a t"
      unfolding holds_Attestation_match[OF dist] by blast
    from a(6) d(2) have "pv = Link (cid d)" by simp
    with a(2,5,7) have "attests a (cid d)"
      unfolding attests_def using nth_mem by blast
    moreover from a(4) d(3) have "audience a = audience d" by simp
    ultimately show ?thesis using a(1,3,8) by blast
  qed
  with d show ?thesis by blast
qed

lemma attestations_bypass:
  assumes i: "resolve b (p_issuer g) = Some (Text i)"
    and nm: "\<not> glob_match ''did:mailto:*'' i"
  shows "\<exists>bs. evaluate db (fst (attestations g (Const (Num t)) A n)) b = Inr bs \<and> b \<in> set bs"
proof -
  have "\<not> (\<exists>v \<in> set (clause_vars (Glob (p_issuer g) (Const (Text ''did:mailto:*'')))). b v = None)"
    using i by (cases "p_issuer g") auto
  moreover have "evaluate db (Glob (p_issuer g) (Const (Text ''did:mailto:*''))) b = Inr []"
    using i nm by (simp add: constraint_def)
  ultimately have n: "evaluate db (Not (Glob (p_issuer g) (Const (Text ''did:mailto:*'')))) b = Inr [b]"
    by simp
  have "well_moded (fst (Attestation_match (p_attestation g) (p_proof g) (Const (Num t)) A n)) {}"
    by (simp add: Attestation_match_clause)
  from well_moded_evaluate[OF this, of b db] obtain ys where
    "evaluate db (fst (Attestation_match (p_attestation g) (p_proof g) (Const (Num t)) A n)) b = Inr ys"
    by auto
  with n show ?thesis by (simp add: attestations_clause)
qed

lemma find_rows_bindings:
  assumes "find_rows ds now selector = Inr rows" "row \<in> set rows"
  shows "\<exists>bs b. evaluate_all (buildIndex ds) (q_where (query now selector)) Map.empty = Inr bs
           \<and> b \<in> set bs \<and> row = select_row (q_select (query now selector)) b"
  using assms by (auto simp add: find_rows_def DB_query_def split: sum.splits)


subsection \<open>The query never fails\<close>

lemma where_clause_well_moded:
  "well_moded (fst (where_clause S A (Const c) g n)) D"
  by (cases "p_need g")
     (auto simp add: where_clause_shape match_given explicit_given implicit_given
        explicit_fresh_issuer Delegation_forwards_clause Delegation_match_clause
        Capability_match_def Delegation_issuedBy_def Delegation_hasProof_def
        attestations_clause Attestation_match_clause)

lemma where_clause_binds:
  "set (trm_vars S) \<union> set (trm_vars A) \<subseteq> bound_after (fst (where_clause S A (Const c) g n)) D"
  by (cases "p_need g")
     (auto simp add: where_clause_shape match_given explicit_given implicit_given
        explicit_fresh_issuer Delegation_forwards_clause Delegation_match_clause
        Capability_match_def Delegation_issuedBy_def Delegation_hasProof_def
        attestations_clause Attestation_match_clause)


lemma well_moded_all_append:
  assumes "\<forall>c \<in> set cs. (\<forall>D. well_moded c D) \<and> (\<forall>D. V \<subseteq> bound_after c D)"
    and "cs \<noteq> [] \<or> V \<subseteq> D"
    and "\<forall>D'. V \<subseteq> D' \<longrightarrow> well_moded_all rest D'"
  shows "well_moded_all (cs @ rest) D"
  using assms
proof (induction cs arbitrary: D)
  case Nil
  then show ?case by simp
next
  case (Cons c cs)
  from Cons.prems(1) have c: "well_moded c D" "V \<subseteq> bound_after c D" by simp_all
  from Cons.prems(1) have "\<forall>c \<in> set cs. (\<forall>D. well_moded c D) \<and> (\<forall>D. V \<subseteq> bound_after c D)"
    by simp
  from Cons.IH[OF this _ Cons.prems(3), of "bound_after c D"] c(2)
  have "well_moded_all (cs @ rest) (bound_after c D)" by simp
  with c(1) show ?case by simp
qed

lemma map_fresh_not_Nil: "map_fresh f xs n = (ys, n') \<Longrightarrow> xs \<noteq> [] \<Longrightarrow> ys \<noteq> []"
  by (cases xs) (auto split: prod.splits)

lemma Text_match_well_moded:
  "set (trm_vars t) \<subseteq> D \<Longrightarrow> well_moded (Text_match t c) D \<and> bound_after (Text_match t c) D = D"
  by (cases c) simp_all

lemma query_well_moded: "well_moded_all (q_where (query now selector)) {}"
proof -
  let ?t = "query_time now selector"
  let ?needs = "if length (query_keys selector) > 0 then map Some (query_keys selector) else [None]"
  from query_parts[of selector now] obtain groups clauses n1 n2 where
    g: "map_fresh proof_group ?needs 2 = (groups, n1)"
    and gr: "map_fresh (where_clause (Var 0) (Var 1) (Const (Num ?t))) groups n1 = (clauses, n2)"
    and q: "q_where (query now selector) = clauses @
            [Text_match (Var 0) (case sel_subject selector of None \<Rightarrow> GlobOf ''*'' | Some s \<Rightarrow> s),
             Text_match (Var 1) (sel_audience selector)]"
    by force
  have "?needs \<noteq> []" by auto
  from map_fresh_not_Nil[OF g this] have "groups \<noteq> []" .
  from map_fresh_not_Nil[OF gr this] have ne: "clauses \<noteq> []" .
  have each: "\<forall>c \<in> set clauses. (\<forall>D. well_moded c D) \<and> (\<forall>D. {0, 1} \<subseteq> bound_after c D)"
  proof
    fix c assume "c \<in> set clauses"
    then obtain i where "i < length clauses" "c = clauses ! i" by (metis in_set_conv_nth)
    with map_fresh_nth[OF gr] obtain m where
      c: "c = fst (where_clause (Var 0) (Var 1) (Const (Num ?t)) (groups ! i) m)" by auto
    show "(\<forall>D. well_moded c D) \<and> (\<forall>D. {0, 1} \<subseteq> bound_after c D)"
      unfolding c using where_clause_well_moded where_clause_binds[of "Var 0" "Var 1"] by auto
  qed
  have rest: "\<forall>D'. {0, 1} \<subseteq> D' \<longrightarrow> well_moded_all
        [Text_match (Var 0) (case sel_subject selector of None \<Rightarrow> GlobOf ''*'' | Some s \<Rightarrow> s),
         Text_match (Var 1) (sel_audience selector)] D'"
    by (simp add: Text_match_well_moded)
  from well_moded_all_append[OF each _ rest, of "{}"] ne show ?thesis
    unfolding q by simp
qed

lemma find_rows_total: "\<exists>rows. find_rows ds now selector = Inr rows"
proof -
  have "{} \<subseteq> dom (Map.empty :: bindings)" by simp
  from well_moded_all_evaluate[OF query_well_moded this, of "buildIndex ds" now selector]
  obtain bs where "evaluate_all (buildIndex ds) (q_where (query now selector)) Map.empty = Inr bs"
    by blast
  then show ?thesis by (simp add: find_rows_def DB_query_def)
qed


subsection \<open>A query for one ability\<close>

lemma query_single:
  assumes "sel_can selector = Some [A]"
  shows "query now selector =
     \<lparr>q_select = \<lparr>s_proofs = [fst (proof_group (Some A) 2)], s_subject = Var 0, s_audience = Var 1\<rparr>,
      q_where =
        [fst (where_clause (Var 0) (Var 1) (Const (Num (query_time now selector)))
               (fst (proof_group (Some A) 2)) 6),
         Text_match (Var 0) (case sel_subject selector of None \<Rightarrow> GlobOf ''*'' | Some s \<Rightarrow> s),
         Text_match (Var 1) (sel_audience selector)]\<rparr>"
  using assms
  by (simp add: query_def query_keys_def Let_def proof_group_def where_clause_shape split: prod.splits)

lemma holds_single_group:
  assumes dist: "distinct (map cid ds)"
    and d: "d \<in> set ds" "i < length (capabilities d)" "unexpired d t"
    and gate: "\<not> glob_match ''did:mailto:*'' (issuer d)
       \<or> (\<exists>a \<in> set ds. \<exists>j < length (capabilities a).
             b 5 = Some (Link (cid a)) \<and> b 14 = Some (Entity (cid a) j)
             \<and> b 15 = Some (expiration_scalar a)
             \<and> can (capabilities a ! j) = ''ucan/attest''
             \<and> (''proof'', Link (cid d)) \<in> set (nb (capabilities a ! j))
             \<and> audience a = audience d \<and> unexpired a t)"
    and b: "b 0 = Some (Text (with' (capabilities d ! i)))" "b 1 = Some (Text (audience d))"
      "b 2 = Some (Text (issuer d))" "b 3 = Some (Text (can (capabilities d ! i)))"
      "b 4 = Some (Link (cid d))" "b 6 = Some (Entity (cid d) i)" "b 7 = Some (expiration_scalar d)"
  shows "holds (buildIndex ds) b
           (fst (where_clause (Var 0) (Var 1) (Const (Num t))
                  (fst (proof_group (Some (can (capabilities d ! i))) 2)) 6))"
proof -
  let ?g = "fst (proof_group (Some (can (capabilities d ! i))) 2)"
  have g: "p_issuer ?g = Var 2" "p_can ?g = Var 3" "p_proof ?g = Var 4" "p_attestation ?g = Var 5"
    by (simp_all add: proof_group_def)
  have ex: "holds (buildIndex ds) b
      (And (Capability_match (Var 6) (Var 3) (Var 0))
           (fst (Delegation_match (Var 4) (Var 6) (Var 1) (Var 2) (Const (Num t)) 7)))"
    unfolding holds_explicit_core[OF dist] using d b
    by (intro bexI[of _ d] exI[of _ i]) simp_all
  then have m: "holds (buildIndex ds) b
      (fst (match (Var 4) \<lparr>m_audience = Some (Var 1), m_issuer = Some (Var 2), m_subject = Some (Var 0),
                            m_can = Some (Var 3), m_time = Some (Const (Num t))\<rparr> 6))"
    by (simp add: match_given explicit_given)
  have gl: "holds (buildIndex ds) b (Glob (Const (Text (can (capabilities d ! i)))) (Var 3))"
    using b(4) by (simp add: glob_match_refl)
  have at: "holds (buildIndex ds) b (fst (attestations ?g (Const (Num t)) (Var 1) 14))"
    using gate
  proof
    assume "\<not> glob_match ''did:mailto:*'' (issuer d)"
    with b(3) show ?thesis by (simp add: attestations_clause g)
  next
    assume "\<exists>a \<in> set ds. \<exists>j < length (capabilities a).
             b 5 = Some (Link (cid a)) \<and> b 14 = Some (Entity (cid a) j)
             \<and> b 15 = Some (expiration_scalar a)
             \<and> can (capabilities a ! j) = ''ucan/attest''
             \<and> (''proof'', Link (cid d)) \<in> set (nb (capabilities a ! j))
             \<and> audience a = audience d \<and> unexpired a t"
    then obtain a j where a: "a \<in> set ds" "j < length (capabilities a)"
      "b 5 = Some (Link (cid a))" "b 14 = Some (Entity (cid a) j)"
      "b 15 = Some (expiration_scalar a)" "can (capabilities a ! j) = ''ucan/attest''"
      "(''proof'', Link (cid d)) \<in> set (nb (capabilities a ! j))"
      "audience a = audience d" "unexpired a t" by blast
    have "holds (buildIndex ds) b (fst (Attestation_match (Var 5) (Var 4) (Const (Num t)) (Var 1) 14))"
      unfolding holds_Attestation_match[OF dist] using a b
      by (intro bexI[of _ a] exI[of _ j] exI[of _ "Link (cid d)"]) simp_all
    then show ?thesis by (simp add: attestations_clause g)
  qed
  from m gl at show ?thesis
    by (cases "can (capabilities d ! i) = []") (simp_all add: where_clause_shape g proof_group_def)
qed


subsection \<open>Acceptance of a closed clause\<close>

lemma accepts_iff_holds:
  assumes wm: "well_moded c {}"
  shows "accepts db c \<longleftrightarrow> (\<exists>b. holds db b c)"
proof -
  have "{} \<subseteq> dom (Map.empty :: bindings)" by simp
  from well_moded_evaluate[OF wm this, of db] obtain bs where
    bs: "evaluate db c Map.empty = Inr bs" by blast
  show ?thesis
  proof
    assume "accepts db c"
    with bs have "bs \<noteq> []" by (simp add: accepts_def)
    then obtain b where "b \<in> set bs" by (cases bs) auto
    from evaluate_sound(2)[OF bs this] show "\<exists>b. holds db b c" by blast
  next
    assume "\<exists>b. holds db b c"
    then obtain b2 where "holds db b2 c" by blast
    from evaluate_complete[OF bs _ this] have "\<exists>b' \<in> set bs. b' \<subseteq>\<^sub>m b2" by simp
    then have "bs \<noteq> []" by auto
    with bs show "accepts db c" by (simp add: accepts_def)
  qed
qed

lemma implicit_closed_well_moded:
  "well_moded (fst (implicit (Const dl)
      \<lparr>m_audience = Some (Const x), m_issuer = Some (Const i), m_subject = Some (Const s),
       m_can = Some (Const a), m_time = Some (Const t)\<rparr> n)) {}"
  by (simp add: implicit_given explicit_fresh_issuer Delegation_forwards_clause
      Delegation_match_clause Capability_match_def Delegation_issuedBy_def Delegation_hasProof_def)

lemma holds_implicit_closed:
  assumes dist: "distinct (map cid ds)"
  shows "(\<exists>b. holds (buildIndex ds) b (fst (implicit (Const (Link c))
      \<lparr>m_audience = Some (Const (Text X)), m_issuer = Some (Const (Text I)),
       m_subject = Some (Const (Text S)), m_can = Some (Const (Text A)),
       m_time = Some (Const (Num t))\<rparr> n))) \<longleftrightarrow>
     (\<exists>d \<in> set ds. cid d = c \<and> audience d = X \<and> issuer d = I \<and> unexpired d t
        \<and> (\<exists>k \<in> set (capabilities d). can k = A \<and> with' k = ''ucan:*'')
        \<and> (I = S
            \<or> (\<exists>p \<in> set ds. cid p \<in> set (proofs d) \<and> audience p = I \<and> unexpired p t
                  \<and> (\<exists>k \<in> set (capabilities p). can k = A \<and> with' k = S))))"
    (is "?L \<longleftrightarrow> ?R")
proof
  let ?db = "buildIndex ds"
  assume ?L
  then obtain b where h: "holds ?db b (fst (implicit (Const (Link c))
      \<lparr>m_audience = Some (Const (Text X)), m_issuer = Some (Const (Text I)),
       m_subject = Some (Const (Text S)), m_can = Some (Const (Text A)),
       m_time = Some (Const (Num t))\<rparr> n))" by blast
  from h have f: "holds ?db b
      (And (Capability_match (Var (Suc n)) (Const (Text A)) (Const (Text ''ucan:*'')))
           (fst (Delegation_match (Const (Link c)) (Var (Suc n)) (Const (Text X)) (Const (Text I))
                  (Const (Num t)) (Suc (Suc n)))))"
    by (simp add: implicit_given Delegation_forwards_clause)
  from h have g: "holds ?db b (Match (Const (Link c)) UcanIssuer (Const (Text S)))
      \<or> (holds ?db b (Match (Const (Link c)) UcanProof (Var n))
          \<and> holds ?db b
              (And (Capability_match (Var (Suc (n + 3))) (Const (Text A)) (Const (Text S)))
                   (fst (Delegation_match (Var n) (Var (Suc (n + 3))) (Const (Text I)) (Var (n + 3))
                          (Const (Num t)) (Suc (Suc (n + 3)))))))"
    by (simp add: implicit_given explicit_fresh_issuer Delegation_issuedBy_def
        Delegation_hasProof_def del: holds.simps(1))
  from f obtain d i where d: "d \<in> set ds" "i < length (capabilities d)" "cid d = c"
    "can (capabilities d ! i) = A" "with' (capabilities d ! i) = ''ucan:*''"
    "audience d = X" "issuer d = I" "unexpired d t"
    unfolding holds_explicit_core[OF dist] by auto
  from d(2,4,5) have cap: "\<exists>k \<in> set (capabilities d). can k = A \<and> with' k = ''ucan:*''"
    using nth_mem by blast
  from g have "I = S
      \<or> (\<exists>p \<in> set ds. cid p \<in> set (proofs d) \<and> audience p = I \<and> unexpired p t
            \<and> (\<exists>k \<in> set (capabilities p). can k = A \<and> with' k = S))"
  proof
    assume "holds ?db b (Match (Const (Link c)) UcanIssuer (Const (Text S)))"
    then obtain d' where "d' \<in> set ds" "cid d' = c" "issuer d' = S"
      unfolding holds_issuer by auto
    with d(1,3,7) same_cid[OF dist] show ?thesis by metis
  next
    assume "holds ?db b (Match (Const (Link c)) UcanProof (Var n))
          \<and> holds ?db b
              (And (Capability_match (Var (Suc (n + 3))) (Const (Text A)) (Const (Text S)))
                   (fst (Delegation_match (Var n) (Var (Suc (n + 3))) (Const (Text I)) (Var (n + 3))
                          (Const (Num t)) (Suc (Suc (n + 3))))))"
    then have hp: "holds ?db b (Match (Const (Link c)) UcanProof (Var n))"
      and ex: "holds ?db b
              (And (Capability_match (Var (Suc (n + 3))) (Const (Text A)) (Const (Text S)))
                   (fst (Delegation_match (Var n) (Var (Suc (n + 3))) (Const (Text I)) (Var (n + 3))
                          (Const (Num t)) (Suc (Suc (n + 3))))))"
      by blast+
    from hp obtain d' pc where d': "d' \<in> set ds" "cid d' = c" "pc \<in> set (proofs d')"
      "b n = Some (Link pc)"
      unfolding holds_proof by auto
    from d'(1,2) d(1,3) same_cid[OF dist] have "d' = d" by metis
    from ex obtain p j where p: "p \<in> set ds" "j < length (capabilities p)"
      "b n = Some (Link (cid p))" "can (capabilities p ! j) = A" "with' (capabilities p ! j) = S"
      "audience p = I" "unexpired p t"
      unfolding holds_explicit_core[OF dist] by auto
    from p(2,4,5) have "\<exists>k \<in> set (capabilities p). can k = A \<and> with' k = S"
      using nth_mem by blast
    moreover from d'(3,4) p(3) \<open>d' = d\<close> have "cid p \<in> set (proofs d)" by simp
    ultimately show ?thesis using p(1,6,7) by blast
  qed
  with d cap show ?R by blast
next
  let ?db = "buildIndex ds"
  assume ?R
  then obtain d k where d: "d \<in> set ds" "cid d = c" "audience d = X" "issuer d = I" "unexpired d t"
    "k \<in> set (capabilities d)" "can k = A" "with' k = ''ucan:*''"
    and alt: "I = S
       \<or> (\<exists>p \<in> set ds. cid p \<in> set (proofs d) \<and> audience p = I \<and> unexpired p t
             \<and> (\<exists>k \<in> set (capabilities p). can k = A \<and> with' k = S))"
    by blast
  from d(6) obtain i where i: "i < length (capabilities d)" "capabilities d ! i = k"
    by (metis in_set_conv_nth)
  define base :: bindings where
    "base = [Suc n \<mapsto> Entity (cid d) i, Suc (Suc n) \<mapsto> expiration_scalar d]"
  have f: "holds ?db b
      (And (Capability_match (Var (Suc n)) (Const (Text A)) (Const (Text ''ucan:*'')))
           (fst (Delegation_match (Const (Link c)) (Var (Suc n)) (Const (Text X)) (Const (Text I))
                  (Const (Num t)) (Suc (Suc n)))))"
    if "b (Suc n) = Some (Entity (cid d) i)" "b (Suc (Suc n)) = Some (expiration_scalar d)" for b
    unfolding holds_explicit_core[OF dist] using d i that
    by (intro bexI[of _ d] exI[of _ i]) simp_all
  from alt have "\<exists>b. b (Suc n) = Some (Entity (cid d) i) \<and> b (Suc (Suc n)) = Some (expiration_scalar d)
      \<and> (holds ?db b (Match (Const (Link c)) UcanIssuer (Const (Text S)))
          \<or> (holds ?db b (Match (Const (Link c)) UcanProof (Var n))
              \<and> holds ?db b
                  (And (Capability_match (Var (Suc (n + 3))) (Const (Text A)) (Const (Text S)))
                       (fst (Delegation_match (Var n) (Var (Suc (n + 3))) (Const (Text I)) (Var (n + 3))
                              (Const (Num t)) (Suc (Suc (n + 3))))))))"
  proof
    assume "I = S"
    with d have "holds ?db base (Match (Const (Link c)) UcanIssuer (Const (Text S)))"
      unfolding holds_issuer by auto
    then show ?thesis by (intro exI[of _ base]) (simp add: base_def del: holds.simps(1))
  next
    assume "\<exists>p \<in> set ds. cid p \<in> set (proofs d) \<and> audience p = I \<and> unexpired p t
             \<and> (\<exists>k \<in> set (capabilities p). can k = A \<and> with' k = S)"
    then obtain p k' where p: "p \<in> set ds" "cid p \<in> set (proofs d)" "audience p = I" "unexpired p t"
      "k' \<in> set (capabilities p)" "can k' = A" "with' k' = S" by blast
    from p(5) obtain j where j: "j < length (capabilities p)" "capabilities p ! j = k'"
      by (metis in_set_conv_nth)
    let ?b = "base(n \<mapsto> Link (cid p), n + 3 \<mapsto> Text (issuer p), Suc (n + 3) \<mapsto> Entity (cid p) j,
                  Suc (Suc (n + 3)) \<mapsto> expiration_scalar p)"
    have v: "?b (Suc n) = Some (Entity (cid d) i)" "?b (Suc (Suc n)) = Some (expiration_scalar d)"
      "?b n = Some (Link (cid p))" "?b (n + 3) = Some (Text (issuer p))"
      "?b (Suc (n + 3)) = Some (Entity (cid p) j)" "?b (Suc (Suc (n + 3))) = Some (expiration_scalar p)"
      by (simp_all add: base_def)
    have "holds ?db ?b (Match (Const (Link c)) UcanProof (Var n))"
      unfolding holds_proof using d(1,2) p(2) v(3)
      by (intro bexI[of _ d] bexI[of _ "cid p"]) simp_all
    moreover have "holds ?db ?b
                  (And (Capability_match (Var (Suc (n + 3))) (Const (Text A)) (Const (Text S)))
                       (fst (Delegation_match (Var n) (Var (Suc (n + 3))) (Const (Text I)) (Var (n + 3))
                              (Const (Num t)) (Suc (Suc (n + 3))))))"
      unfolding holds_explicit_core[OF dist] using p j v(3,4,5,6)
      by (intro bexI[of _ p] exI[of _ j]) simp_all
    ultimately show ?thesis using v(1,2) by (intro exI[of _ ?b]) blast
  qed
  then obtain b where b: "b (Suc n) = Some (Entity (cid d) i)"
    "b (Suc (Suc n)) = Some (expiration_scalar d)"
    and g: "holds ?db b (Match (Const (Link c)) UcanIssuer (Const (Text S)))
          \<or> (holds ?db b (Match (Const (Link c)) UcanProof (Var n))
              \<and> holds ?db b
                  (And (Capability_match (Var (Suc (n + 3))) (Const (Text A)) (Const (Text S)))
                       (fst (Delegation_match (Var n) (Var (Suc (n + 3))) (Const (Text I)) (Var (n + 3))
                              (Const (Num t)) (Suc (Suc (n + 3)))))))"
    by blast
  from f[OF b] g have "holds ?db b (fst (implicit (Const (Link c))
      \<lparr>m_audience = Some (Const (Text X)), m_issuer = Some (Const (Text I)),
       m_subject = Some (Const (Text S)), m_can = Some (Const (Text A)),
       m_time = Some (Const (Num t))\<rparr> n))"
    by (simp add: implicit_given explicit_fresh_issuer Delegation_forwards_clause
        Delegation_issuedBy_def Delegation_hasProof_def del: holds.simps(1))
  then show ?L by blast
qed


subsection \<open>An explicit match with only the time selected\<close>

lemma explicit_time_only:
  "explicit dlg \<lparr>m_audience = None, m_issuer = None, m_subject = None, m_can = None,
                 m_time = Some T\<rparr> n =
     (And (Capability_match (Var (n + 4)) (Var (n + 3)) (Var (n + 2)))
          (fst (Delegation_match dlg (Var (n + 4)) (Var n) (Var (n + 1)) T (n + 5))),
      n + 6)"
  by (simp add: explicit_def or_fresh_def Delegation_match_def Let_def eval_nat_numeral)

lemma explicit_time_only_well_moded:
  "well_moded (fst (explicit (Const dl)
      \<lparr>m_audience = None, m_issuer = None, m_subject = None, m_can = None,
       m_time = Some (Const t)\<rparr> n)) {}"
  by (simp add: explicit_time_only Delegation_match_clause Capability_match_def)

lemma holds_explicit_time_only:
  assumes dist: "distinct (map cid ds)" and d: "d \<in> set ds" "capabilities d \<noteq> []"
  shows "(\<exists>b. holds (buildIndex ds) b (fst (explicit (Const (Link (cid d)))
      \<lparr>m_audience = None, m_issuer = None, m_subject = None, m_can = None,
       m_time = Some (Const (Num time))\<rparr> n))) \<longleftrightarrow> unexpired d time"
    (is "?L \<longleftrightarrow> ?R")
proof
  assume ?L
  then obtain b d' where "d' \<in> set ds" "Some (Link (cid d)) = Some (Link (cid d'))" "unexpired d' time"
    unfolding explicit_time_only fst_conv holds_explicit_core[OF dist] resolve.simps by blast
  with d(1) same_cid[OF dist] show ?R by auto
next
  assume r: ?R
  from d(2) have i: "0 < length (capabilities d)" by simp
  let ?b = "[n \<mapsto> Text (audience d), n + 1 \<mapsto> Text (issuer d),
             n + 2 \<mapsto> Text (with' (capabilities d ! 0)), n + 3 \<mapsto> Text (can (capabilities d ! 0)),
             n + 4 \<mapsto> Entity (cid d) 0, n + 5 \<mapsto> expiration_scalar d]"
  have "holds (buildIndex ds) ?b (fst (explicit (Const (Link (cid d)))
      \<lparr>m_audience = None, m_issuer = None, m_subject = None, m_can = None,
       m_time = Some (Const (Num time))\<rparr> n))"
    unfolding explicit_time_only fst_conv holds_explicit_core[OF dist] using d(1) i r
    by (intro bexI[of _ d] exI[of _ 0]) simp_all
  then show ?L by blast
qed


subsection \<open>The groups and the clauses of a query, by position\<close>

lemma map_fresh_stride:
  assumes "\<And>x m. snd (f x m) = m + k"
  shows "map_fresh f xs n = (ys, n') \<Longrightarrow>
     n' = n + k * length xs \<and> length ys = length xs
     \<and> (\<forall>i < length xs. ys ! i = fst (f (xs ! i) (n + k * i)))"
proof (induction xs arbitrary: n ys n')
  case Nil
  then show ?case by simp
next
  case (Cons x xs)
  obtain y n1 where y: "f x n = (y, n1)" by (cases "f x n") auto
  with assms[of x n] have n1: "n1 = n + k" by simp
  obtain zs n2 where zs: "map_fresh f xs n1 = (zs, n2)" by (cases "map_fresh f xs n1") auto
  from Cons.prems y zs have ys: "ys = y # zs" "n' = n2" by simp_all
  from Cons.IH[OF zs] have ih: "n2 = n1 + k * length xs" "length zs = length xs"
    "\<forall>i < length xs. zs ! i = fst (f (xs ! i) (n1 + k * i))" by blast+
  have "\<forall>i < length (x # xs). ys ! i = fst (f ((x # xs) ! i) (n + k * i))"
  proof (intro allI impI)
    fix i assume "i < length (x # xs)"
    show "ys ! i = fst (f ((x # xs) ! i) (n + k * i))"
    proof (cases i)
      case 0
      with y ys show ?thesis by simp
    next
      case (Suc j)
      with \<open>i < length (x # xs)\<close> ih(3) ys n1 show ?thesis by (simp add: add.assoc)
    qed
  qed
  with ys ih(1,2) n1 show ?case by simp
qed

lemma proof_group_next: "snd (proof_group need m) = m + 4"
  by (simp add: proof_group_def)

lemma where_clause_next: "snd (where_clause S A T g m) = m + 10"
  by (simp add: where_clause_shape)

lemma query_by_position:
  fixes selector now
  defines "needs \<equiv> (if length (query_keys selector) > 0 then map Some (query_keys selector) else [None])"
  defines "q \<equiv> query now selector"
  shows "length (s_proofs (q_select q)) = length needs"
    and "length (q_where q) = length needs + 2"
    and "\<forall>i < length needs.
           s_proofs (q_select q) ! i = fst (proof_group (needs ! i) (2 + 4 * i))
           \<and> q_where q ! i =
               fst (where_clause (Var 0) (Var 1) (Const (Num (query_time now selector)))
                     (fst (proof_group (needs ! i) (2 + 4 * i)))
                     (2 + 4 * length needs + 10 * i))"
proof -
  let ?t = "query_time now selector"
  from query_parts[of selector now] obtain groups clauses n1 n2 where
    g: "map_fresh proof_group needs 2 = (groups, n1)"
    and gr: "map_fresh (where_clause (Var 0) (Var 1) (Const (Num ?t))) groups n1 = (clauses, n2)"
    and qq: "q = \<lparr>q_select = \<lparr>s_proofs = groups, s_subject = Var 0, s_audience = Var 1\<rparr>,
          q_where = clauses @
            [Text_match (Var 0) (case sel_subject selector of None \<Rightarrow> GlobOf ''*'' | Some s \<Rightarrow> s),
             Text_match (Var 1) (sel_audience selector)]\<rparr>"
    unfolding needs_def q_def by blast
  from map_fresh_stride[of proof_group 4, OF proof_group_next g]
  have a: "n1 = 2 + 4 * length needs" "length groups = length needs"
    "\<forall>i < length needs. groups ! i = fst (proof_group (needs ! i) (2 + 4 * i))" by blast+
  from map_fresh_stride[of "where_clause (Var 0) (Var 1) (Const (Num ?t))" 10, OF where_clause_next gr]
  have b: "length clauses = length groups"
    "\<forall>i < length groups. clauses ! i =
        fst (where_clause (Var 0) (Var 1) (Const (Num ?t)) (groups ! i) (n1 + 10 * i))" by blast+
  from a(2) show "length (s_proofs (q_select q)) = length needs" by (simp add: qq)
  from a(2) b(1) show "length (q_where q) = length needs + 2" by (simp add: qq)
  show "\<forall>i < length needs.
           s_proofs (q_select q) ! i = fst (proof_group (needs ! i) (2 + 4 * i))
           \<and> q_where q ! i =
               fst (where_clause (Var 0) (Var 1) (Const (Num ?t))
                     (fst (proof_group (needs ! i) (2 + 4 * i)))
                     (2 + 4 * length needs + 10 * i))"
  proof (intro allI impI)
    fix i assume i: "i < length needs"
    with a(2) b(1) have "q_where q ! i = clauses ! i" by (simp add: qq nth_append)
    with i a b show "s_proofs (q_select q) ! i = fst (proof_group (needs ! i) (2 + 4 * i))
           \<and> q_where q ! i =
               fst (where_clause (Var 0) (Var 1) (Const (Num ?t))
                     (fst (proof_group (needs ! i) (2 + 4 * i)))
                     (2 + 4 * length needs + 10 * i))"
      by (simp add: qq)
  qed
qed


text \<open>
  The groups of a query, key by key. \<open>need && { need }\<close> and \<open>need ? ... : clause\<close>
  test the key for truth, so the key \<open>''\<close> (which is no ability) gives a group with
  no \<open>need\<close> and no glob.
\<close>

lemma query_groups_by_key:
  "(query_keys selector = [] \<longrightarrow>
      s_proofs (q_select (query now selector)) = [fst (proof_group None 2)]
      \<and> p_need (fst (proof_group None 2)) = None
      \<and> length (q_where (query now selector)) = 3
      \<and> q_where (query now selector) ! 0 =
          And (fst (match (Var 4)
                 \<lparr>m_audience = Some (Var 1), m_issuer = Some (Var 2), m_subject = Some (Var 0),
                  m_can = Some (Var 3), m_time = Some (Const (Num (query_time now selector)))\<rparr> 6))
              (fst (attestations (fst (proof_group None 2))
                     (Const (Num (query_time now selector))) (Var 1) 14)))
   \<and> (query_keys selector \<noteq> [] \<longrightarrow>
      length (s_proofs (q_select (query now selector))) = length (query_keys selector)
      \<and> length (q_where (query now selector)) = length (query_keys selector) + 2
      \<and> (\<forall>i < length (query_keys selector).
           s_proofs (q_select (query now selector)) ! i
             = fst (proof_group (Some (query_keys selector ! i)) (2 + 4 * i))
           \<and> p_need (s_proofs (q_select (query now selector)) ! i)
             = (if query_keys selector ! i = [] then None else Some (query_keys selector ! i))
           \<and> q_where (query now selector) ! i =
               (if query_keys selector ! i = []
                then And (fst (match (Var (2 + 4 * i + 2))
                           \<lparr>m_audience = Some (Var 1), m_issuer = Some (Var (2 + 4 * i)),
                            m_subject = Some (Var 0), m_can = Some (Var (2 + 4 * i + 1)),
                            m_time = Some (Const (Num (query_time now selector)))\<rparr>
                           (2 + 4 * length (query_keys selector) + 10 * i)))
                         (fst (attestations (fst (proof_group (Some (query_keys selector ! i)) (2 + 4 * i)))
                                (Const (Num (query_time now selector))) (Var 1)
                                (2 + 4 * length (query_keys selector) + 10 * i + 8)))
                else And (And (fst (match (Var (2 + 4 * i + 2))
                                \<lparr>m_audience = Some (Var 1), m_issuer = Some (Var (2 + 4 * i)),
                                 m_subject = Some (Var 0), m_can = Some (Var (2 + 4 * i + 1)),
                                 m_time = Some (Const (Num (query_time now selector)))\<rparr>
                                (2 + 4 * length (query_keys selector) + 10 * i)))
                              (Glob (Const (Text (query_keys selector ! i))) (Var (2 + 4 * i + 1))))
                         (fst (attestations (fst (proof_group (Some (query_keys selector ! i)) (2 + 4 * i)))
                                (Const (Num (query_time now selector))) (Var 1)
                                (2 + 4 * length (query_keys selector) + 10 * i + 8))))))"
proof (intro conjI impI)
  assume e: "query_keys selector = []"
  from query_by_position[where now = now and selector = selector] e
  have l: "length (s_proofs (q_select (query now selector))) = 1"
    "length (q_where (query now selector)) = 3"
    and p: "s_proofs (q_select (query now selector)) ! 0 = fst (proof_group None 2)"
      "q_where (query now selector) ! 0 =
         fst (where_clause (Var 0) (Var 1) (Const (Num (query_time now selector)))
               (fst (proof_group None 2)) 6)"
    by simp_all
  from l(1) p(1) show "s_proofs (q_select (query now selector)) = [fst (proof_group None 2)]"
    by (cases "s_proofs (q_select (query now selector))") auto
  show "p_need (fst (proof_group None 2)) = None" by (simp add: proof_group_def)
  from l(2) show "length (q_where (query now selector)) = 3" .
  from p(2) show "q_where (query now selector) ! 0 =
          And (fst (match (Var 4)
                 \<lparr>m_audience = Some (Var 1), m_issuer = Some (Var 2), m_subject = Some (Var 0),
                  m_can = Some (Var 3), m_time = Some (Const (Num (query_time now selector)))\<rparr> 6))
              (fst (attestations (fst (proof_group None 2))
                     (Const (Num (query_time now selector))) (Var 1) 14))"
    by (simp add: where_clause_shape proof_group_def)
next
  assume ne: "query_keys selector \<noteq> []"
  from query_by_position[where now = now and selector = selector] ne
  show "length (s_proofs (q_select (query now selector))) = length (query_keys selector)" by simp
next
  assume ne: "query_keys selector \<noteq> []"
  from query_by_position[where now = now and selector = selector] ne
  show "length (q_where (query now selector)) = length (query_keys selector) + 2" by simp
next
  assume ne: "query_keys selector \<noteq> []"
  let ?keys = "query_keys selector"
  let ?t = "Const (Num (query_time now selector))"
  show "\<forall>i < length ?keys.
           s_proofs (q_select (query now selector)) ! i = fst (proof_group (Some (?keys ! i)) (2 + 4 * i))
           \<and> p_need (s_proofs (q_select (query now selector)) ! i)
             = (if ?keys ! i = [] then None else Some (?keys ! i))
           \<and> q_where (query now selector) ! i =
               (if ?keys ! i = []
                then And (fst (match (Var (2 + 4 * i + 2))
                           \<lparr>m_audience = Some (Var 1), m_issuer = Some (Var (2 + 4 * i)),
                            m_subject = Some (Var 0), m_can = Some (Var (2 + 4 * i + 1)),
                            m_time = Some ?t\<rparr>
                           (2 + 4 * length ?keys + 10 * i)))
                         (fst (attestations (fst (proof_group (Some (?keys ! i)) (2 + 4 * i)))
                                ?t (Var 1) (2 + 4 * length ?keys + 10 * i + 8)))
                else And (And (fst (match (Var (2 + 4 * i + 2))
                                \<lparr>m_audience = Some (Var 1), m_issuer = Some (Var (2 + 4 * i)),
                                 m_subject = Some (Var 0), m_can = Some (Var (2 + 4 * i + 1)),
                                 m_time = Some ?t\<rparr>
                                (2 + 4 * length ?keys + 10 * i)))
                              (Glob (Const (Text (?keys ! i))) (Var (2 + 4 * i + 1))))
                         (fst (attestations (fst (proof_group (Some (?keys ! i)) (2 + 4 * i)))
                                ?t (Var 1) (2 + 4 * length ?keys + 10 * i + 8))))"
  proof (intro allI impI)
    fix i assume i: "i < length ?keys"
    from query_by_position[where now = now and selector = selector] ne i
    have p: "s_proofs (q_select (query now selector)) ! i = fst (proof_group (Some (?keys ! i)) (2 + 4 * i))"
      "q_where (query now selector) ! i =
         fst (where_clause (Var 0) (Var 1) ?t (fst (proof_group (Some (?keys ! i)) (2 + 4 * i)))
               (2 + 4 * length ?keys + 10 * i))"
      by simp_all
    show "s_proofs (q_select (query now selector)) ! i = fst (proof_group (Some (?keys ! i)) (2 + 4 * i))
           \<and> p_need (s_proofs (q_select (query now selector)) ! i)
             = (if ?keys ! i = [] then None else Some (?keys ! i))
           \<and> q_where (query now selector) ! i =
               (if ?keys ! i = []
                then And (fst (match (Var (2 + 4 * i + 2))
                           \<lparr>m_audience = Some (Var 1), m_issuer = Some (Var (2 + 4 * i)),
                            m_subject = Some (Var 0), m_can = Some (Var (2 + 4 * i + 1)),
                            m_time = Some ?t\<rparr>
                           (2 + 4 * length ?keys + 10 * i)))
                         (fst (attestations (fst (proof_group (Some (?keys ! i)) (2 + 4 * i)))
                                ?t (Var 1) (2 + 4 * length ?keys + 10 * i + 8)))
                else And (And (fst (match (Var (2 + 4 * i + 2))
                                \<lparr>m_audience = Some (Var 1), m_issuer = Some (Var (2 + 4 * i)),
                                 m_subject = Some (Var 0), m_can = Some (Var (2 + 4 * i + 1)),
                                 m_time = Some ?t\<rparr>
                                (2 + 4 * length ?keys + 10 * i)))
                              (Glob (Const (Text (?keys ! i))) (Var (2 + 4 * i + 1))))
                         (fst (attestations (fst (proof_group (Some (?keys ! i)) (2 + 4 * i)))
                                ?t (Var 1) (2 + 4 * length ?keys + 10 * i + 8))))"
      unfolding p by (simp add: where_clause_shape proof_group_def)
  qed
qed


lemma query_empty_key:
  "query_keys \<lparr>sel_audience = Exact ''did:key:alice'', sel_can = Some [''''],
                sel_subject = None, sel_time = Some 50\<rparr> = ['''']
   \<and> map p_need (s_proofs (q_select (query 0
         \<lparr>sel_audience = Exact ''did:key:alice'', sel_can = Some [''''],
          sel_subject = None, sel_time = Some 50\<rparr>))) = [None]
   \<and> find_rows [fixture_grant] 0
         \<lparr>sel_audience = Exact ''did:key:alice'', sel_can = Some [''''],
          sel_subject = None, sel_time = Some 50\<rparr> =
       Inr [\<lparr>r_proofs =
               [\<lparr>pr_issuer = Some (Text ''did:key:space''),
                 pr_can = Some (Text ''store/add''),
                 pr_proof = Some (Link ''grant''), pr_attestation = None,
                 pr_need = None\<rparr>],
              r_subject = Some (Text ''did:key:space''),
              r_audience = Some (Text ''did:key:alice'')\<rparr>]
   \<and> \<not> glob_match ''store/add'' ''''"
  by code_simp


text \<open>
  Evaluation binds no variable that the clause does not mention.
\<close>

lemma unify_dom: "unify t s b = Some b1 \<Longrightarrow> dom b1 \<subseteq> dom b \<union> set (trm_vars t)"
  by (cases t) (auto split: if_splits option.splits)

lemma match_fact_dom_upper:
  assumes "match_fact e a v b f = Some b'"
  shows "dom b' \<subseteq> dom b \<union> set (trm_vars e) \<union> set (trm_vars v)"
proof -
  obtain fe fa fv where f: "f = (fe, fa, fv)" by (cases f)
  from assms f obtain b1 where b1: "unify e fe b = Some b1" "unify v fv b1 = Some b'"
    by (auto simp add: match_fact_def split: if_splits option.splits)
  from unify_dom[OF b1(1)] unify_dom[OF b1(2)] show ?thesis by blast
qed

lemma evaluate_dom:
  "evaluate db c b = Inr bs \<Longrightarrow> b' \<in> set bs \<Longrightarrow> dom b' \<subseteq> dom b \<union> set (clause_vars c)"
proof (induction c arbitrary: b bs b')
  case (Match e a v)
  then obtain f where "match_fact e a v b f = Some b'" by (auto simp add: set_map_filter)
  from match_fact_dom_upper[OF this] show ?case by auto
next
  case (And x y)
  from And.prems(1) obtain xs where xs: "evaluate db x b = Inr xs"
    and c: "collect (map (evaluate db y) xs) = Inr bs"
    by (auto split: sum.splits)
  from collect_map_member[OF c, of b'] And.prems(2) obtain b1 ys where
    b1: "b1 \<in> set xs" "evaluate db y b1 = Inr ys" "b' \<in> set ys" by blast
  from And.IH(1)[OF xs b1(1)] And.IH(2)[OF b1(2,3)] show ?case
    by (simp only: clause_vars.simps set_append) blast
next
  case (Or x y)
  from Or.prems(1) obtain xs ys where xs: "evaluate db x b = Inr xs"
    and ys: "evaluate db y b = Inr ys" and bs: "bs = xs @ ys"
    by (auto split: sum.splits)
  from Or.prems(2) bs have "b' \<in> set xs \<or> b' \<in> set ys" by simp
  with Or.IH(1)[OF xs] Or.IH(2)[OF ys] show ?case
    by (simp only: clause_vars.simps set_append) blast
next
  case (Not x)
  from Not.prems(1) have "set bs \<subseteq> {b}" by (auto split: if_splits sum.splits)
  with Not.prems(2) have "b' = b" by blast
  then show ?case by simp
next
  case (Glob t p)
  from constraint_sound[of glob_scalar t p b bs b'] Glob show ?case by simp
next
  case (Is t u)
  from constraint_sound[of "(=)" t u b bs b'] Is show ?case by simp
next
  case (NotLess t u)
  from constraint_sound[of not_less t u b bs b'] NotLess show ?case by simp
qed

lemma evaluate_all_dom:
  "evaluate_all db cs b = Inr bs \<Longrightarrow> b' \<in> set bs \<Longrightarrow>
     dom b' \<subseteq> dom b \<union> (\<Union>c \<in> set cs. set (clause_vars c))"
proof (induction cs arbitrary: b bs b')
  case Nil
  from Nil(1) have e: "bs = [b]" by simp
  from Nil(2) have "b' = b" unfolding e by simp
  then show ?case by simp
next
  case (Cons c cs)
  from Cons.prems(1) obtain xs where xs: "evaluate db c b = Inr xs"
    and cl: "collect (map (evaluate_all db cs) xs) = Inr bs"
    by (auto split: sum.splits)
  from collect_map_member[OF cl, of b'] Cons.prems(2) obtain b1 ys where
    b1: "b1 \<in> set xs" "evaluate_all db cs b1 = Inr ys" "b' \<in> set ys" by blast
  have A: "dom b1 \<subseteq> dom b \<union> set (clause_vars c)" by (rule evaluate_dom[OF xs b1(1)])
  have B: "dom b' \<subseteq> dom b1 \<union> (\<Union>c \<in> set cs. set (clause_vars c))"
    by (rule Cons.IH[OF b1(2,3)])
  show ?case
  proof
    fix x assume x: "x \<in> dom b'"
    from subsetD[OF B x] show "x \<in> dom b \<union> (\<Union>c \<in> set (c # cs). set (clause_vars c))"
    proof (rule UnE)
      assume "x \<in> dom b1"
      from subsetD[OF A this] show ?thesis by auto
    next
      assume "x \<in> (\<Union>c \<in> set cs. set (clause_vars c))"
      then show ?thesis by auto
    qed
  qed
qed

text \<open>
  A variable that only the second branch of \<open>Or (Not G) AM\<close> mentions is bound in a
  result exactly when that branch produced it: the first branch returns its binding as
  it is.
\<close>

lemma evaluate_gate:
  assumes ev: "evaluate db (And P (Or (Not G) AM)) b = Inr bs" and b': "b' \<in> set bs"
    and x: "x \<notin> dom b" "x \<notin> set (clause_vars P)"
  shows "b' x = None \<or> (\<forall>b2. b' \<subseteq>\<^sub>m b2 \<longrightarrow> holds db b2 AM)"
proof -
  from ev obtain xs where xs: "evaluate db P b = Inr xs"
    and c: "collect (map (evaluate db (Or (Not G) AM)) xs) = Inr bs"
    by (auto split: sum.splits)
  from collect_map_member[OF c, of b'] b' obtain b1 ys where
    b1: "b1 \<in> set xs" "evaluate db (Or (Not G) AM) b1 = Inr ys" "b' \<in> set ys" by blast
  from evaluate_dom[OF xs b1(1)] x have nx: "b1 x = None" by auto
  from b1(2) obtain ns ms where ns: "evaluate db (Not G) b1 = Inr ns"
    and ms: "evaluate db AM b1 = Inr ms" and ys: "ys = ns @ ms"
    by (auto split: sum.splits)
  from b1(3) ys have "b' \<in> set ns \<or> b' \<in> set ms" by simp
  then show ?thesis
  proof
    assume "b' \<in> set ns"
    moreover from ns have "set ns \<subseteq> {b1}" by (auto split: if_splits sum.splits)
    ultimately have "b' = b1" by blast
    with nx show ?thesis by simp
  next
    assume "b' \<in> set ms"
    from holds_mono_result[OF ms this] show ?thesis by blast
  qed
qed

lemma evaluate_all_gate:
  assumes "evaluate_all db cs b = Inr bs" "b' \<in> set bs" "i < length cs"
    "cs ! i = And P (Or (Not G) AM)" "x \<notin> dom b" "x \<notin> set (clause_vars P)"
    "\<forall>j < length cs. j \<noteq> i \<longrightarrow> x \<notin> set (clause_vars (cs ! j))"
  shows "b' x = None \<or> holds db b' AM"
  using assms
proof (induction cs arbitrary: b bs i)
  case Nil
  then show ?case by simp
next
  case (Cons c cs)
  from Cons.prems(1) obtain xs where xs: "evaluate db c b = Inr xs"
    and cl: "collect (map (evaluate_all db cs) xs) = Inr bs"
    by (auto split: sum.splits)
  from collect_map_member[OF cl, of b'] Cons.prems(2) obtain b1 ys where
    b1: "b1 \<in> set xs" "evaluate_all db cs b1 = Inr ys" "b' \<in> set ys" by blast
  show ?case
  proof (cases i)
    case 0
    with Cons.prems(4) have c: "c = And P (Or (Not G) AM)" by simp
    from Cons.prems(7) 0 have rest: "\<forall>j < length cs. x \<notin> set (clause_vars (cs ! j))" by auto
    then have "\<forall>c \<in> set cs. x \<notin> set (clause_vars c)" by (metis in_set_conv_nth)
    then have nr: "x \<notin> (\<Union>c \<in> set cs. set (clause_vars c))" by blast
    from evaluate_all_sound[OF b1(2,3)] have le: "b1 \<subseteq>\<^sub>m b'" by blast
    from evaluate_gate[OF xs[unfolded c] b1(1) Cons.prems(5,6)]
    show ?thesis
    proof
      assume "b1 x = None"
      with evaluate_all_dom[OF b1(2,3)] nr have "b' x = None" by auto
      then show ?thesis by simp
    next
      assume "\<forall>b2. b1 \<subseteq>\<^sub>m b2 \<longrightarrow> holds db b2 AM"
      with le show ?thesis by blast
    qed
  next
    case (Suc k)
    with Cons.prems(3,4) have k: "k < length cs" "cs ! k = And P (Or (Not G) AM)" by simp_all
    from Cons.prems(7) Suc have "x \<notin> set (clause_vars c)" by auto
    with evaluate_dom[OF xs b1(1)] Cons.prems(5) have nx: "x \<notin> dom b1" by auto
    from Cons.prems(7) Suc have rest: "\<forall>j < length cs. j \<noteq> k \<longrightarrow> x \<notin> set (clause_vars (cs ! j))"
      by auto
    from Cons.IH[OF b1(2,3) k nx Cons.prems(6) rest] show ?thesis .
  qed
qed

text \<open>
  The clause of a group is the search for the proof joined with the attestation gate.
  The attestation variable of the group occurs under the gate only, and the variables
  of the clause are those of the query, those of the group and the ten fresh ones.
\<close>

lemma where_clause_split:
  "\<exists>P. fst (where_clause (Var 0) (Var 1) (Const T) (fst (proof_group need n)) m) =
          And P (Or (Not (Glob (Var n) (Const (Text ''did:mailto:*''))))
                    (fst (Attestation_match (Var (n + 3)) (Var (n + 2)) (Const T) (Var 1) (m + 8))))
        \<and> set (clause_vars P) \<subseteq> {0, 1, n, n + 1, n + 2} \<union> {m ..< m + 8}"
proof -
  let ?g = "fst (proof_group need n)"
  have g: "p_issuer ?g = Var n" "p_can ?g = Var (n + 1)" "p_proof ?g = Var (n + 2)"
    "p_attestation ?g = Var (n + 3)"
    by (simp_all add: proof_group_def)
  let ?M = "fst (match (Var (n + 2))
               \<lparr>m_audience = Some (Var 1), m_issuer = Some (Var n), m_subject = Some (Var 0),
                m_can = Some (Var (n + 1)), m_time = Some (Const T)\<rparr> m)"
  have mv: "set (clause_vars ?M) \<subseteq> {0, 1, n, n + 1, n + 2} \<union> {m ..< m + 8}"
    by (auto simp add: match_given explicit_given implicit_given explicit_fresh_issuer
        Delegation_forwards_clause Delegation_match_clause Capability_match_def
        Delegation_issuedBy_def Delegation_hasProof_def)
  show ?thesis
  proof (cases "p_need ?g")
    case None
    then have "fst (where_clause (Var 0) (Var 1) (Const T) ?g m) =
          And ?M (Or (Not (Glob (Var n) (Const (Text ''did:mailto:*''))))
                    (fst (Attestation_match (Var (n + 3)) (Var (n + 2)) (Const T) (Var 1) (m + 8))))"
      by (simp add: where_clause_shape attestations_clause g)
    with mv show ?thesis by blast
  next
    case (Some a)
    then have "fst (where_clause (Var 0) (Var 1) (Const T) ?g m) =
          And (And ?M (Glob (Const (Text a)) (Var (n + 1))))
              (Or (Not (Glob (Var n) (Const (Text ''did:mailto:*''))))
                    (fst (Attestation_match (Var (n + 3)) (Var (n + 2)) (Const T) (Var 1) (m + 8))))"
      by (simp add: where_clause_shape attestations_clause g)
    moreover from mv have "set (clause_vars (And ?M (Glob (Const (Text a)) (Var (n + 1)))))
        \<subseteq> {0, 1, n, n + 1, n + 2} \<union> {m ..< m + 8}" by simp
    ultimately show ?thesis by blast
  qed
qed

lemma where_clause_vars:
  "set (clause_vars (fst (where_clause (Var 0) (Var 1) (Const T) (fst (proof_group need n)) m)))
     \<subseteq> {0, 1, n, n + 1, n + 2, n + 3} \<union> {m ..< m + 10}"
proof -
  from where_clause_split[of T need n m] obtain P where
    P: "fst (where_clause (Var 0) (Var 1) (Const T) (fst (proof_group need n)) m) =
          And P (Or (Not (Glob (Var n) (Const (Text ''did:mailto:*''))))
                    (fst (Attestation_match (Var (n + 3)) (Var (n + 2)) (Const T) (Var 1) (m + 8))))"
    and v: "set (clause_vars P) \<subseteq> {0, 1, n, n + 1, n + 2} \<union> {m ..< m + 8}" by blast
  have "set (clause_vars (Or (Not (Glob (Var n) (Const (Text ''did:mailto:*''))))
                    (fst (Attestation_match (Var (n + 3)) (Var (n + 2)) (Const T) (Var 1) (m + 8)))))
        \<subseteq> {0, 1, n, n + 1, n + 2, n + 3} \<union> {m ..< m + 10}"
    by (auto simp add: Attestation_match_clause)
  moreover from v have "set (clause_vars P) \<subseteq> {0, 1, n, n + 1, n + 2, n + 3} \<union> {m ..< m + 10}"
    by auto
  ultimately show ?thesis unfolding P by simp
qed

lemma Text_match_vars: "set (clause_vars (Text_match (Var v) c)) = {v}"
  by (cases c) simp_all

text \<open>
  In a binding that the query returns, the attestation variable of a group is unbound,
  or the attestation clause of the group holds.
\<close>

lemma query_gate:
  assumes ev: "evaluate_all db (q_where (query now selector)) Map.empty = Inr bs"
    and b: "b \<in> set bs"
    and i: "i < length (s_proofs (q_select (query now selector)))"
  shows "b (2 + 4 * i + 3) = None
       \<or> holds db b (fst (Attestation_match (Var (2 + 4 * i + 3)) (Var (2 + 4 * i + 2))
                           (Const (Num (query_time now selector))) (Var 1)
                           (2 + 4 * length (s_proofs (q_select (query now selector))) + 10 * i + 8)))"
proof -
  let ?t = "query_time now selector"
  let ?needs = "if length (query_keys selector) > 0 then map Some (query_keys selector) else [None]"
  let ?L = "length ?needs"
  let ?q = "query now selector"
  from query_parts[of selector now] obtain groups clauses n1 n2 where
    g: "map_fresh proof_group ?needs 2 = (groups, n1)"
    and gr: "map_fresh (where_clause (Var 0) (Var 1) (Const (Num ?t))) groups n1 = (clauses, n2)"
    and qq: "?q = \<lparr>q_select = \<lparr>s_proofs = groups, s_subject = Var 0, s_audience = Var 1\<rparr>,
          q_where = clauses @
            [Text_match (Var 0) (case sel_subject selector of None \<Rightarrow> GlobOf ''*'' | Some s \<Rightarrow> s),
             Text_match (Var 1) (sel_audience selector)]\<rparr>"
    by blast
  from map_fresh_stride[of proof_group 4, OF proof_group_next g]
  have a: "n1 = 2 + 4 * ?L" "length groups = ?L"
    "\<forall>i < ?L. groups ! i = fst (proof_group (?needs ! i) (2 + 4 * i))" by blast+
  from map_fresh_stride[of "where_clause (Var 0) (Var 1) (Const (Num ?t))" 10, OF where_clause_next gr]
  have c: "length clauses = length groups"
    "\<forall>i < length groups. clauses ! i =
        fst (where_clause (Var 0) (Var 1) (Const (Num ?t)) (groups ! i) (n1 + 10 * i))" by blast+
  from i a(2) have iL: "i < ?L" by (simp add: qq)
  from a(2) have len: "length (s_proofs (q_select ?q)) = ?L" by (simp add: qq)
  have cl: "clauses ! j = fst (where_clause (Var 0) (Var 1) (Const (Num ?t))
                    (fst (proof_group (?needs ! j) (2 + 4 * j))) (2 + 4 * ?L + 10 * j))"
    if "j < ?L" for j
    using that a c by simp
  let ?cs = "q_where ?q"
  have csl: "length ?cs = ?L + 2" using a(2) c(1) by (simp add: qq)
  have nth_lt: "?cs ! j = clauses ! j" if "j < ?L" for j
    using that a(2) c(1) by (simp add: qq nth_append)
  from where_clause_split[of "Num ?t" "?needs ! i" "2 + 4 * i" "2 + 4 * ?L + 10 * i"] obtain P where
    P: "fst (where_clause (Var 0) (Var 1) (Const (Num ?t)) (fst (proof_group (?needs ! i) (2 + 4 * i)))
             (2 + 4 * ?L + 10 * i)) =
          And P (Or (Not (Glob (Var (2 + 4 * i)) (Const (Text ''did:mailto:*''))))
                    (fst (Attestation_match (Var (2 + 4 * i + 3)) (Var (2 + 4 * i + 2)) (Const (Num ?t))
                           (Var 1) (2 + 4 * ?L + 10 * i + 8))))"
    and Pv: "set (clause_vars P) \<subseteq> {0, 1, 2 + 4 * i, 2 + 4 * i + 1, 2 + 4 * i + 2}
               \<union> {2 + 4 * ?L + 10 * i ..< 2 + 4 * ?L + 10 * i + 8}" by blast
  have ci: "?cs ! i = And P (Or (Not (Glob (Var (2 + 4 * i)) (Const (Text ''did:mailto:*''))))
                    (fst (Attestation_match (Var (2 + 4 * i + 3)) (Var (2 + 4 * i + 2)) (Const (Num ?t))
                           (Var 1) (2 + 4 * ?L + 10 * i + 8))))"
    using nth_lt[OF iL] cl[OF iL] P by simp
  have xP: "2 + 4 * i + 3 \<notin> set (clause_vars P)"
  proof
    assume "2 + 4 * i + 3 \<in> set (clause_vars P)"
    from subsetD[OF Pv this] iL show False by auto
  qed
  have others: "\<forall>j < length ?cs. j \<noteq> i \<longrightarrow> 2 + 4 * i + 3 \<notin> set (clause_vars (?cs ! j))"
  proof (intro allI impI)
    fix j assume j: "j < length ?cs" "j \<noteq> i"
    show "2 + 4 * i + 3 \<notin> set (clause_vars (?cs ! j))"
    proof (cases "j < ?L")
      case True
      have "set (clause_vars (?cs ! j)) \<subseteq> {0, 1, 2 + 4 * j, 2 + 4 * j + 1, 2 + 4 * j + 2, 2 + 4 * j + 3}
               \<union> {2 + 4 * ?L + 10 * j ..< 2 + 4 * ?L + 10 * j + 10}"
        unfolding nth_lt[OF True] cl[OF True] by (rule where_clause_vars)
      moreover have "2 + 4 * i + 3 \<notin> {0, 1, 2 + 4 * j, 2 + 4 * j + 1, 2 + 4 * j + 2, 2 + 4 * j + 3}
               \<union> {2 + 4 * ?L + 10 * j ..< 2 + 4 * ?L + 10 * j + 10}"
        using iL j(2) by auto
      ultimately show ?thesis by blast
    next
      case False
      with j(1) csl have "j = ?L \<or> j = ?L + 1" by auto
      with a(2) c(1) have "(\<exists>c. ?cs ! j = Text_match (Var 0) c) \<or> (\<exists>c. ?cs ! j = Text_match (Var 1) c)"
        by (auto simp add: qq nth_append)
      then show ?thesis by (auto simp add: Text_match_vars)
    qed
  qed
  from i len csl have ics: "i < length ?cs" by simp
  have x0: "2 + 4 * i + 3 \<notin> dom (Map.empty :: bindings)" by simp
  from evaluate_all_gate[OF ev b ics ci x0 xP others] show ?thesis unfolding len .
qed

text \<open>
  What the clause of a group says about the ability it selects: it is the ability of a
  capability of the proof the group cites, and when the group has a \<open>need\<close>, that
  ability, read as a pattern, matches the need.
\<close>

lemma holds_match_can:
  assumes dist: "distinct (map cid ds)"
    and h: "holds (buildIndex ds) b
              (fst (match dlg \<lparr>m_audience = Some A, m_issuer = Some I, m_subject = Some S,
                               m_can = Some C, m_time = Some (Const (Num t))\<rparr> n))"
  shows "\<exists>d \<in> set ds. \<exists>k \<in> set (capabilities d).
           resolve b dlg = Some (Link (cid d)) \<and> resolve b C = Some (Text (can k))"
proof -
  from h have "holds (buildIndex ds) b
                 (And (Capability_match (Var n) C S)
                      (fst (Delegation_match dlg (Var n) A I (Const (Num t)) (Suc n))))
             \<or> holds (buildIndex ds) b
                 (And (Capability_match (Var (Suc (n + 2))) C (Const (Text ''ucan:*'')))
                      (fst (Delegation_match dlg (Var (Suc (n + 2))) A I (Const (Num t))
                             (Suc (Suc (n + 2))))))"
    by (auto simp add: match_given explicit_given implicit_given Delegation_forwards_clause)
  then obtain d i where "d \<in> set ds" "i < length (capabilities d)"
    "resolve b dlg = Some (Link (cid d))" "resolve b C = Some (Text (can (capabilities d ! i)))"
    unfolding holds_explicit_core[OF dist] by blast
  then show ?thesis using nth_mem by blast
qed

lemma holds_where_clause_can:
  assumes dist: "distinct (map cid ds)"
    and h: "holds (buildIndex ds) b (fst (where_clause S A (Const (Num t)) g n))"
  shows "\<exists>d \<in> set ds. \<exists>k \<in> set (capabilities d).
           resolve b (p_proof g) = Some (Link (cid d)) \<and> resolve b (p_can g) = Some (Text (can k))
           \<and> (\<forall>a. p_need g = Some a \<longrightarrow> glob_match (can k) a)"
proof -
  from h have m: "holds (buildIndex ds) b
        (fst (match (p_proof g)
               \<lparr>m_audience = Some A, m_issuer = Some (p_issuer g), m_subject = Some S,
                m_can = Some (p_can g), m_time = Some (Const (Num t))\<rparr> n))"
    by (cases "p_need g"; simp add: where_clause_shape)
  from holds_match_can[OF dist m] obtain d k where d: "d \<in> set ds" "k \<in> set (capabilities d)"
    "resolve b (p_proof g) = Some (Link (cid d))" "resolve b (p_can g) = Some (Text (can k))"
    by blast
  have "glob_match (can k) a" if a: "p_need g = Some a" for a
  proof -
    from h a have "holds (buildIndex ds) b (Glob (Const (Text a)) (p_can g))"
      by (simp add: where_clause_shape)
    with d(4) show ?thesis by simp
  qed
  with d show ?thesis by blast
qed

text \<open>
  The query of a selector that names no ability, and the binding that satisfies its one
  clause.
\<close>

lemma query_none:
  assumes "sel_can selector = None \<or> sel_can selector = Some []"
  shows "query now selector =
     \<lparr>q_select = \<lparr>s_proofs = [fst (proof_group None 2)], s_subject = Var 0, s_audience = Var 1\<rparr>,
      q_where =
        [fst (where_clause (Var 0) (Var 1) (Const (Num (query_time now selector)))
               (fst (proof_group None 2)) 6),
         Text_match (Var 0) (case sel_subject selector of None \<Rightarrow> GlobOf ''*'' | Some s \<Rightarrow> s),
         Text_match (Var 1) (sel_audience selector)]\<rparr>"
  using assms
  by (auto simp add: query_def query_keys_def Let_def proof_group_def where_clause_shape split: prod.splits)

lemma holds_none_group:
  assumes dist: "distinct (map cid ds)"
    and d: "d \<in> set ds" "i < length (capabilities d)" "unexpired d t"
    and gate: "\<not> glob_match ''did:mailto:*'' (issuer d)
       \<or> (\<exists>a \<in> set ds. \<exists>j < length (capabilities a).
             b 5 = Some (Link (cid a)) \<and> b 14 = Some (Entity (cid a) j)
             \<and> b 15 = Some (expiration_scalar a)
             \<and> can (capabilities a ! j) = ''ucan/attest''
             \<and> (''proof'', Link (cid d)) \<in> set (nb (capabilities a ! j))
             \<and> audience a = audience d \<and> unexpired a t)"
    and b: "b 0 = Some (Text (with' (capabilities d ! i)))" "b 1 = Some (Text (audience d))"
      "b 2 = Some (Text (issuer d))" "b 3 = Some (Text (can (capabilities d ! i)))"
      "b 4 = Some (Link (cid d))" "b 6 = Some (Entity (cid d) i)" "b 7 = Some (expiration_scalar d)"
  shows "holds (buildIndex ds) b
           (fst (where_clause (Var 0) (Var 1) (Const (Num t)) (fst (proof_group None 2)) 6))"
proof -
  let ?g = "fst (proof_group None 2)"
  let ?h = "fst (proof_group (Some (can (capabilities d ! i))) 2)"
  have g: "p_issuer ?g = p_issuer ?h" "p_can ?g = p_can ?h" "p_proof ?g = p_proof ?h"
    "p_attestation ?g = p_attestation ?h" "p_need ?g = None"
    by (simp_all add: proof_group_def)
  from holds_single_group[OF dist d gate b]
  have "holds (buildIndex ds) b (fst (where_clause (Var 0) (Var 1) (Const (Num t)) ?h 6))" .
  then have "holds (buildIndex ds) b
        (fst (match (p_proof ?h)
               \<lparr>m_audience = Some (Var 1), m_issuer = Some (p_issuer ?h), m_subject = Some (Var 0),
                m_can = Some (p_can ?h), m_time = Some (Const (Num t))\<rparr> 6))"
    and "holds (buildIndex ds) b (fst (attestations ?h (Const (Num t)) (Var 1) (6 + 8)))"
    by (cases "p_need ?h"; simp add: where_clause_shape)+
  moreover have "fst (attestations ?g (Const (Num t)) (Var 1) (6 + 8))
               = fst (attestations ?h (Const (Num t)) (Var 1) (6 + 8))"
    by (simp add: attestations_clause g)
  ultimately show ?thesis
    unfolding where_clause_shape g fst_conv by simp
qed

lemma holds_Text_match_satisfies:
  "b v = Some (Text x) \<Longrightarrow> holds db b (Text_match (Var v) c) \<longleftrightarrow> text_satisfies c x"
  by (cases c) auto

lemma map_le_same: "b' \<subseteq>\<^sub>m b2 \<Longrightarrow> b' x = Some y \<Longrightarrow> b2 x = Some z \<Longrightarrow> y = z"
  by (auto simp add: map_le_def dom_def)

text \<open>
  With no ability named, every capability of every unexpired delegation to the audience
  is found, whatever its ability, provided its issuer is not an account or is attested.
\<close>

lemma query_complete_any:
  assumes dist: "distinct (map cid ds)"
    and none: "sel_can selector = None \<or> sel_can selector = Some []"
    and d: "d \<in> set ds" "k \<in> set (capabilities d)" "unexpired d (query_time now selector)"
    and aud: "text_satisfies (sel_audience selector) (audience d)"
    and subj: "text_satisfies (case sel_subject selector of None \<Rightarrow> GlobOf ''*'' | Some s \<Rightarrow> s) (with' k)"
    and gate: "\<not> glob_match ''did:mailto:*'' (issuer d)
       \<or> (\<exists>a \<in> set ds. attests a (cid d) \<and> audience a = audience d
             \<and> unexpired a (query_time now selector))"
  shows "\<exists>rows. find_rows ds now selector = Inr rows
           \<and> (\<exists>row \<in> set rows. r_subject row = Some (Text (with' k))
                \<and> r_audience row = Some (Text (audience d))
                \<and> (\<exists>g. r_proofs row = [g] \<and> pr_proof g = Some (Link (cid d))
                       \<and> pr_can g = Some (Text (can k)) \<and> pr_need g = None))"
proof -
  let ?t = "query_time now selector"
  let ?db = "buildIndex ds"
  let ?g = "fst (proof_group None 2)"
  let ?c0 = "fst (where_clause (Var 0) (Var 1) (Const (Num ?t)) ?g 6)"
  let ?T0 = "Text_match (Var 0) (case sel_subject selector of None \<Rightarrow> GlobOf ''*'' | Some s \<Rightarrow> s)"
  let ?T1 = "Text_match (Var 1) (sel_audience selector)"
  from d(2) obtain i where i: "i < length (capabilities d)" "capabilities d ! i = k"
    by (metis in_set_conv_nth)
  define base :: bindings where
    "base = [0 \<mapsto> Text (with' k), 1 \<mapsto> Text (audience d), 2 \<mapsto> Text (issuer d),
             3 \<mapsto> Text (can k), 4 \<mapsto> Link (cid d),
             6 \<mapsto> Entity (cid d) i, 7 \<mapsto> expiration_scalar d]"
  have "\<exists>b2 :: bindings.
          b2 0 = Some (Text (with' k)) \<and> b2 1 = Some (Text (audience d))
          \<and> b2 2 = Some (Text (issuer d))
          \<and> b2 3 = Some (Text (can k)) \<and> b2 4 = Some (Link (cid d))
          \<and> b2 6 = Some (Entity (cid d) i)
          \<and> b2 7 = Some (expiration_scalar d)
          \<and> (\<not> glob_match ''did:mailto:*'' (issuer d)
              \<or> (\<exists>a \<in> set ds. \<exists>j < length (capabilities a).
                    b2 5 = Some (Link (cid a)) \<and> b2 14 = Some (Entity (cid a) j)
                    \<and> b2 15 = Some (expiration_scalar a)
                    \<and> can (capabilities a ! j) = ''ucan/attest''
                    \<and> (''proof'', Link (cid d)) \<in> set (nb (capabilities a ! j))
                    \<and> audience a = audience d \<and> unexpired a ?t))"
    using gate
  proof
    assume "\<not> glob_match ''did:mailto:*'' (issuer d)"
    then show ?thesis by (intro exI[of _ base]) (simp add: base_def)
  next
    assume "\<exists>a \<in> set ds. attests a (cid d) \<and> audience a = audience d \<and> unexpired a ?t"
    then obtain a k' where a: "a \<in> set ds" "k' \<in> set (capabilities a)" "can k' = ''ucan/attest''"
      "(''proof'', Link (cid d)) \<in> set (nb k')" "audience a = audience d" "unexpired a ?t"
      unfolding attests_def by blast
    from a(2) obtain j where j: "j < length (capabilities a)" "capabilities a ! j = k'"
      by (metis in_set_conv_nth)
    let ?b = "base(5 \<mapsto> Link (cid a), 14 \<mapsto> Entity (cid a) j, 15 \<mapsto> expiration_scalar a)"
    have "\<exists>a \<in> set ds. \<exists>j < length (capabilities a).
            ?b 5 = Some (Link (cid a)) \<and> ?b 14 = Some (Entity (cid a) j)
            \<and> ?b 15 = Some (expiration_scalar a)
            \<and> can (capabilities a ! j) = ''ucan/attest''
            \<and> (''proof'', Link (cid d)) \<in> set (nb (capabilities a ! j))
            \<and> audience a = audience d \<and> unexpired a ?t"
      using a j by (intro bexI[of _ a] exI[of _ j]) simp_all
    then show ?thesis by (intro exI[of _ ?b]) (simp add: base_def)
  qed
  then obtain b2 :: bindings where b2:
    "b2 0 = Some (Text (with' k))" "b2 1 = Some (Text (audience d))" "b2 2 = Some (Text (issuer d))"
    "b2 3 = Some (Text (can k))" "b2 4 = Some (Link (cid d))" "b2 6 = Some (Entity (cid d) i)"
    "b2 7 = Some (expiration_scalar d)"
    and gate2: "\<not> glob_match ''did:mailto:*'' (issuer d)
              \<or> (\<exists>a \<in> set ds. \<exists>j < length (capabilities a).
                    b2 5 = Some (Link (cid a)) \<and> b2 14 = Some (Entity (cid a) j)
                    \<and> b2 15 = Some (expiration_scalar a)
                    \<and> can (capabilities a ! j) = ''ucan/attest''
                    \<and> (''proof'', Link (cid d)) \<in> set (nb (capabilities a ! j))
                    \<and> audience a = audience d \<and> unexpired a ?t)"
    by blast
  have q: "query now selector =
     \<lparr>q_select = \<lparr>s_proofs = [?g], s_subject = Var 0, s_audience = Var 1\<rparr>,
      q_where = [?c0, ?T0, ?T1]\<rparr>"
    by (rule query_none[OF none])
  have h0: "holds ?db b2 ?c0"
    using holds_none_group[OF dist d(1) i(1) d(3) gate2] b2 i(2) by simp
  have h1: "holds ?db b2 ?T0"
    unfolding holds_Text_match_satisfies[of b2 0, OF b2(1)] by (rule subj)
  have h2: "holds ?db b2 ?T1"
    unfolding holds_Text_match_satisfies[of b2 1, OF b2(2)] by (rule aud)
  from find_rows_total[of ds now selector] obtain rows where rows: "find_rows ds now selector = Inr rows"
    by blast
  then obtain bs where ev: "evaluate_all ?db (q_where (query now selector)) Map.empty = Inr bs"
    and rs: "rows = map (select_row (q_select (query now selector))) bs"
    by (auto simp add: find_rows_def DB_query_def split: sum.splits)
  from h0 h1 h2 have "\<forall>c \<in> set (q_where (query now selector)). holds ?db b2 c"
    by (simp add: q)
  from evaluate_all_complete[OF ev _ this] obtain b' where b': "b' \<in> set bs" "b' \<subseteq>\<^sub>m b2"
    by auto
  from evaluate_all_sound[OF ev b'(1)] have all: "\<forall>c \<in> set (q_where (query now selector)). holds ?db b' c"
    by (blast intro: map_le_refl)
  from all have "holds ?db b' ?T0" by (simp add: q)
  then obtain x0 where "b' 0 = Some x0" unfolding holds_Text_match by auto
  with map_le_same[OF b'(2) _ b2(1)] have v0: "b' 0 = Some (Text (with' k))" by simp
  from all have "holds ?db b' ?T1" by (simp add: q)
  then obtain x1 where "b' 1 = Some x1" unfolding holds_Text_match by auto
  with map_le_same[OF b'(2) _ b2(2)] have v1: "b' 1 = Some (Text (audience d))" by simp
  from all have "holds ?db b' ?c0" by (simp add: q)
  from holds_where_clause_can[OF dist this] obtain x3 x4 where
    "resolve b' (p_proof ?g) = Some x4" "resolve b' (p_can ?g) = Some x3"
    by blast
  then have "b' 4 = Some x4" "b' 3 = Some x3" by (simp_all add: proof_group_def)
  with map_le_same[OF b'(2) _ b2(5)] map_le_same[OF b'(2) _ b2(4)]
  have v4: "b' 4 = Some (Link (cid d))" and v3: "b' 3 = Some (Text (can k))" by simp_all
  let ?row = "select_row (q_select (query now selector)) b'"
  from b'(1) rs have "?row \<in> set rows" by simp
  moreover from v0 v1 have "r_subject ?row = Some (Text (with' k))"
    "r_audience ?row = Some (Text (audience d))"
    by (simp_all add: q select_row_def)
  moreover from v3 v4 have "\<exists>g. r_proofs ?row = [g] \<and> pr_proof g = Some (Link (cid d))
                       \<and> pr_can g = Some (Text (can k)) \<and> pr_need g = None"
    by (simp add: q select_row_def select_group_def proof_group_def)
  ultimately show ?thesis using rows by blast
qed

text \<open>
  With abilities named, every row has one group for each of them, in their order, and the
  ability a group selects is that of a capability of the proof it cites and matches,
  as a pattern, the ability the group was built for.
\<close>

lemma query_rows_need:
  assumes dist: "distinct (map cid ds)"
    and keys: "sel_can selector = Some keys" "keys \<noteq> []" "[] \<notin> set keys"
    and fr: "find_rows ds now selector = Inr rows" and row: "row \<in> set rows"
  shows "length (r_proofs row) = length keys
       \<and> (\<forall>i < length keys.
            pr_need (r_proofs row ! i) = Some (keys ! i)
            \<and> (\<exists>d \<in> set ds. \<exists>k \<in> set (capabilities d).
                  pr_proof (r_proofs row ! i) = Some (Link (cid d))
                  \<and> pr_can (r_proofs row ! i) = Some (Text (can k))
                  \<and> glob_match (can k) (keys ! i)))"
proof -
  let ?q = "query now selector"
  let ?t = "query_time now selector"
  from keys(1) have qk: "query_keys selector = keys" by (simp add: query_keys_def)
  from keys(2) have needs: "(if length (query_keys selector) > 0 then map Some (query_keys selector) else [None])
       = map Some keys" by (simp add: qk)
  from query_by_position[where now = now and selector = selector, unfolded needs]
  have pos: "length (s_proofs (q_select ?q)) = length keys"
    "length (q_where ?q) = length keys + 2"
    "\<forall>i < length keys.
        s_proofs (q_select ?q) ! i = fst (proof_group (Some (keys ! i)) (2 + 4 * i))
        \<and> q_where ?q ! i =
               fst (where_clause (Var 0) (Var 1) (Const (Num ?t))
                     (fst (proof_group (Some (keys ! i)) (2 + 4 * i)))
                     (2 + 4 * length keys + 10 * i))"
    by simp_all
  from find_rows_bindings[OF fr row] obtain bs b where
    ev: "evaluate_all (buildIndex ds) (q_where ?q) Map.empty = Inr bs"
    and b: "b \<in> set bs" and r: "row = select_row (q_select ?q) b" by blast
  from evaluate_all_sound[OF ev b] have all: "\<forall>c \<in> set (q_where ?q). holds (buildIndex ds) b c"
    by (blast intro: map_le_refl)
  from r have rp: "r_proofs row = map (select_group b) (s_proofs (q_select ?q))"
    by (simp add: select_row_def)
  with pos(1) have len: "length (r_proofs row) = length keys" by simp
  have each: "pr_need (r_proofs row ! i) = Some (keys ! i)
            \<and> (\<exists>d \<in> set ds. \<exists>k \<in> set (capabilities d).
                  pr_proof (r_proofs row ! i) = Some (Link (cid d))
                  \<and> pr_can (r_proofs row ! i) = Some (Text (can k))
                  \<and> glob_match (can k) (keys ! i))"
    if i: "i < length keys" for i
  proof -
    let ?g = "fst (proof_group (Some (keys ! i)) (2 + 4 * i))"
    from i keys(3) have ne: "keys ! i \<noteq> []" by (metis nth_mem)
    then have need: "p_need ?g = Some (keys ! i)" by (simp add: proof_group_def)
    from pos(3) i have gi: "s_proofs (q_select ?q) ! i = ?g"
      and ci: "q_where ?q ! i = fst (where_clause (Var 0) (Var 1) (Const (Num ?t)) ?g
                                     (2 + 4 * length keys + 10 * i))"
      by blast+
    from rp i pos(1) gi have sg: "r_proofs row ! i = select_group b ?g" by simp
    from pos(2) i have "q_where ?q ! i \<in> set (q_where ?q)" by simp
    with all ci have "holds (buildIndex ds) b
        (fst (where_clause (Var 0) (Var 1) (Const (Num ?t)) ?g (2 + 4 * length keys + 10 * i)))"
      by metis
    from holds_where_clause_can[OF dist this] need obtain d k where
      "d \<in> set ds" "k \<in> set (capabilities d)" "resolve b (p_proof ?g) = Some (Link (cid d))"
      "resolve b (p_can ?g) = Some (Text (can k))" "glob_match (can k) (keys ! i)"
      by blast
    with sg need show ?thesis unfolding sg by (auto simp add: select_group_def)
  qed
  with len show ?thesis by blast
qed

lemma query_groups_nonempty:
  "(query_keys selector = [] \<longrightarrow>
      s_proofs (q_select (query now selector)) = [fst (proof_group None 2)]
      \<and> p_need (fst (proof_group None 2)) = None
      \<and> length (q_where (query now selector)) = 3
      \<and> q_where (query now selector) ! 0 =
          And (fst (match (Var 4)
                 \<lparr>m_audience = Some (Var 1), m_issuer = Some (Var 2), m_subject = Some (Var 0),
                  m_can = Some (Var 3), m_time = Some (Const (Num (query_time now selector)))\<rparr> 6))
              (fst (attestations (fst (proof_group None 2))
                     (Const (Num (query_time now selector))) (Var 1) 14)))
   \<and> (query_keys selector \<noteq> [] \<longrightarrow> [] \<notin> set (query_keys selector) \<longrightarrow>
      length (s_proofs (q_select (query now selector))) = length (query_keys selector)
      \<and> length (q_where (query now selector)) = length (query_keys selector) + 2
      \<and> (\<forall>i < length (query_keys selector).
           s_proofs (q_select (query now selector)) ! i
             = fst (proof_group (Some (query_keys selector ! i)) (2 + 4 * i))
           \<and> p_need (s_proofs (q_select (query now selector)) ! i) = Some (query_keys selector ! i)
           \<and> q_where (query now selector) ! i =
               And (And (fst (match (Var (2 + 4 * i + 2))
                           \<lparr>m_audience = Some (Var 1), m_issuer = Some (Var (2 + 4 * i)),
                            m_subject = Some (Var 0), m_can = Some (Var (2 + 4 * i + 1)),
                            m_time = Some (Const (Num (query_time now selector)))\<rparr>
                           (2 + 4 * length (query_keys selector) + 10 * i)))
                        (Glob (Const (Text (query_keys selector ! i))) (Var (2 + 4 * i + 1))))
                   (fst (attestations (fst (proof_group (Some (query_keys selector ! i)) (2 + 4 * i)))
                          (Const (Num (query_time now selector))) (Var 1)
                          (2 + 4 * length (query_keys selector) + 10 * i + 8)))))"
proof (intro conjI impI)
  assume e: "query_keys selector = []"
  from query_groups_by_key[of selector now] e
  have a: "s_proofs (q_select (query now selector)) = [fst (proof_group None 2)]
      \<and> p_need (fst (proof_group None 2)) = None
      \<and> length (q_where (query now selector)) = 3
      \<and> q_where (query now selector) ! 0 =
          And (fst (match (Var 4)
                 \<lparr>m_audience = Some (Var 1), m_issuer = Some (Var 2), m_subject = Some (Var 0),
                  m_can = Some (Var 3), m_time = Some (Const (Num (query_time now selector)))\<rparr> 6))
              (fst (attestations (fst (proof_group None 2))
                     (Const (Num (query_time now selector))) (Var 1) 14))"
    by blast
  from a show "s_proofs (q_select (query now selector)) = [fst (proof_group None 2)]" by blast
  from a show "p_need (fst (proof_group None 2)) = None" by blast
  from a show "length (q_where (query now selector)) = 3" by blast
  from a show "q_where (query now selector) ! 0 =
          And (fst (match (Var 4)
                 \<lparr>m_audience = Some (Var 1), m_issuer = Some (Var 2), m_subject = Some (Var 0),
                  m_can = Some (Var 3), m_time = Some (Const (Num (query_time now selector)))\<rparr> 6))
              (fst (attestations (fst (proof_group None 2))
                     (Const (Num (query_time now selector))) (Var 1) 14))"
    by blast
next
  assume ne: "query_keys selector \<noteq> []"
  with query_groups_by_key[of selector now]
  show "length (s_proofs (q_select (query now selector))) = length (query_keys selector)" by blast
next
  assume ne: "query_keys selector \<noteq> []"
  with query_groups_by_key[of selector now]
  show "length (q_where (query now selector)) = length (query_keys selector) + 2" by blast
next
  assume ne: "query_keys selector \<noteq> []" and nn: "[] \<notin> set (query_keys selector)"
  show "\<forall>i < length (query_keys selector).
           s_proofs (q_select (query now selector)) ! i
             = fst (proof_group (Some (query_keys selector ! i)) (2 + 4 * i))
           \<and> p_need (s_proofs (q_select (query now selector)) ! i) = Some (query_keys selector ! i)
           \<and> q_where (query now selector) ! i =
               And (And (fst (match (Var (2 + 4 * i + 2))
                           \<lparr>m_audience = Some (Var 1), m_issuer = Some (Var (2 + 4 * i)),
                            m_subject = Some (Var 0), m_can = Some (Var (2 + 4 * i + 1)),
                            m_time = Some (Const (Num (query_time now selector)))\<rparr>
                           (2 + 4 * length (query_keys selector) + 10 * i)))
                        (Glob (Const (Text (query_keys selector ! i))) (Var (2 + 4 * i + 1))))
                   (fst (attestations (fst (proof_group (Some (query_keys selector ! i)) (2 + 4 * i)))
                          (Const (Num (query_time now selector))) (Var 1)
                          (2 + 4 * length (query_keys selector) + 10 * i + 8)))"
  proof (intro allI impI)
    fix i assume i: "i < length (query_keys selector)"
    with nn have k: "query_keys selector ! i \<noteq> []" by (metis nth_mem)
    from query_groups_by_key[of selector now] ne
    have "\<forall>i < length (query_keys selector).
           s_proofs (q_select (query now selector)) ! i
             = fst (proof_group (Some (query_keys selector ! i)) (2 + 4 * i))
           \<and> p_need (s_proofs (q_select (query now selector)) ! i)
             = (if query_keys selector ! i = [] then None else Some (query_keys selector ! i))
           \<and> q_where (query now selector) ! i =
               (if query_keys selector ! i = []
                then And (fst (match (Var (2 + 4 * i + 2))
                           \<lparr>m_audience = Some (Var 1), m_issuer = Some (Var (2 + 4 * i)),
                            m_subject = Some (Var 0), m_can = Some (Var (2 + 4 * i + 1)),
                            m_time = Some (Const (Num (query_time now selector)))\<rparr>
                           (2 + 4 * length (query_keys selector) + 10 * i)))
                         (fst (attestations (fst (proof_group (Some (query_keys selector ! i)) (2 + 4 * i)))
                                (Const (Num (query_time now selector))) (Var 1)
                                (2 + 4 * length (query_keys selector) + 10 * i + 8)))
                else And (And (fst (match (Var (2 + 4 * i + 2))
                                \<lparr>m_audience = Some (Var 1), m_issuer = Some (Var (2 + 4 * i)),
                                 m_subject = Some (Var 0), m_can = Some (Var (2 + 4 * i + 1)),
                                 m_time = Some (Const (Num (query_time now selector)))\<rparr>
                                (2 + 4 * length (query_keys selector) + 10 * i)))
                              (Glob (Const (Text (query_keys selector ! i))) (Var (2 + 4 * i + 1))))
                         (fst (attestations (fst (proof_group (Some (query_keys selector ! i)) (2 + 4 * i)))
                                (Const (Num (query_time now selector))) (Var 1)
                                (2 + 4 * length (query_keys selector) + 10 * i + 8))))"
      by blast
    from this[rule_format, OF i, unfolded if_not_P[OF k]]
    show "s_proofs (q_select (query now selector)) ! i
             = fst (proof_group (Some (query_keys selector ! i)) (2 + 4 * i))
           \<and> p_need (s_proofs (q_select (query now selector)) ! i) = Some (query_keys selector ! i)
           \<and> q_where (query now selector) ! i =
               And (And (fst (match (Var (2 + 4 * i + 2))
                           \<lparr>m_audience = Some (Var 1), m_issuer = Some (Var (2 + 4 * i)),
                            m_subject = Some (Var 0), m_can = Some (Var (2 + 4 * i + 1)),
                            m_time = Some (Const (Num (query_time now selector)))\<rparr>
                           (2 + 4 * length (query_keys selector) + 10 * i)))
                        (Glob (Const (Text (query_keys selector ! i))) (Var (2 + 4 * i + 1))))
                   (fst (attestations (fst (proof_group (Some (query_keys selector ! i)) (2 + 4 * i)))
                          (Const (Num (query_time now selector))) (Var 1)
                          (2 + 4 * length (query_keys selector) + 10 * i + 8)))"
      .
  qed
qed

section \<open>Properties of the delegation store\<close>

text \<open>
  C7 (evaluation at the failing input). The stored bytes of the referenced
  delegation decode to no delegation at all. \<open>rowToDelegation\<close> fails, and the error
  it throws is a plain \<open>Error\<close>: its name is not \<open>UnexpectedDelegation\<close>.
\<close>

theorem rowToDelegation_plain_error:
  "rowToDelegation (\<lambda>b. Inr [])
     \<lparr>row_cid = ''bafy1'', row_audience = ''did:key:a'', row_issuer = ''did:key:b''\<rparr>
     \<lparr>dags = [''bafy1.car'' \<mapsto> [1, 2, 3]], table = [], canStream = False\<rparr>
   = Inl (JsError ''Error'' ''expected 1 delegation in CAR, but got 0'')
   \<and> JsError ''Error'' ''expected 1 delegation in CAR, but got 0''
       \<noteq> UnexpectedDelegation ''expected 1 delegation in CAR, but got 0''"
  by (simp add: rowToDelegation_def carFileKeyer_def UnexpectedDelegation_def show_nat.simps)

text \<open>
  C8. When the database cannot stream, the async iterator of the store yields no
  delegation and ends with an error whose name is \<open>NotImplementedError\<close>, whatever
  the table and the bucket hold.
\<close>

theorem asyncIterator_not_implemented:
  assumes "\<not> canStream st"
  shows "\<exists>message. asyncIterator bytesToDelegations st
           = ([], Some (JsError ''NotImplementedError'' message))"
  using assms by (simp add: asyncIterator_def)

theorem asyncIterator_not_implemented_witness:
  "\<not> canStream \<lparr>dags = [''bafy1.car'' \<mapsto> [1, 2, 3]],
        table = [\<lparr>row_cid = ''bafy1'', row_audience = ''did:key:a'', row_issuer = ''did:key:b''\<rparr>],
        canStream = False\<rparr>
   \<and> (\<exists>message. asyncIterator (\<lambda>b. Inr [])
         \<lparr>dags = [''bafy1.car'' \<mapsto> [1, 2, 3]],
          table = [\<lparr>row_cid = ''bafy1'', row_audience = ''did:key:a'', row_issuer = ''did:key:b''\<rparr>],
          canStream = False\<rparr>
        = ([], Some (JsError ''NotImplementedError'' message)))"
  using asyncIterator_not_implemented
    [of "\<lparr>dags = [''bafy1.car'' \<mapsto> [1, 2, 3]],
          table = [\<lparr>row_cid = ''bafy1'', row_audience = ''did:key:a'', row_issuer = ''did:key:b''\<rparr>],
          canStream = False\<rparr>" "\<lambda>b. Inr []"]
  by simp

text \<open>
  C9. \<open>putMany\<close> with no delegation returns without error and leaves the whole
  state of the store as it was: the bucket and the table are not written.
\<close>

theorem putMany_empty_noop:
  "putMany delegationsToBytes [] st = (Inr (), st)"
  by (simp add: putMany_def)

section \<open>Properties of the account store\<close>

text \<open>
  C10. When the value stored under \<open>email\<close> is an array \<open>xs\<close>, or nothing is stored
  (then \<open>xs\<close> is empty), \<open>saveDelegation\<close> succeeds, and afterwards
  \<open>getDelegations\<close> returns \<open>xs\<close> extended at its end with the encoding of the
  delegation: nothing that was stored is dropped. Other keys keep their values.
\<close>

theorem saveDelegation_appends:
  assumes "kv email = Some (JArr xs) \<or> (kv email = None \<and> xs = [])"
  shows "\<exists>kv'. saveDelegation delegationToString email d kv = (Inr (), kv')
           \<and> getDelegations kv' email = Some (JArr (xs @ [JStr (delegationToString d)]))
           \<and> (\<forall>other. other \<noteq> email \<longrightarrow> kv' other = kv other)"
  using assms
  by (auto simp add: saveDelegation_def getDelegations_def kv_get_json_def)

theorem saveDelegation_appends_witness:
  "([''mailto:a@b.c'' \<mapsto> JArr [JStr ''d0'']] ''mailto:a@b.c'' = Some (JArr [JStr ''d0''])
      \<or> ([''mailto:a@b.c'' \<mapsto> JArr [JStr ''d0'']] ''mailto:a@b.c'' = None \<and> [JStr ''d0''] = []))
   \<and> (\<exists>kv'. saveDelegation cid ''mailto:a@b.c''
          \<lparr>cid = ''d1'', issuer = ''did:key:i'', audience = ''did:key:a'', capabilities = [],
           expiration = None, proofs = []\<rparr>
          [''mailto:a@b.c'' \<mapsto> JArr [JStr ''d0'']] = (Inr (), kv')
        \<and> getDelegations kv' ''mailto:a@b.c'' = Some (JArr [JStr ''d0'', JStr ''d1'']))"
  using saveDelegation_appends
    [of "[''mailto:a@b.c'' \<mapsto> JArr [JStr ''d0'']]" "''mailto:a@b.c''" "[JStr ''d0'']" cid
        "\<lparr>cid = ''d1'', issuer = ''did:key:i'', audience = ''did:key:a'', capabilities = [],
          expiration = None, proofs = []\<rparr>"]
  by auto


section \<open>Properties of the authorization query\<close>

text \<open>
  C1. Take a delegation set whose links are distinct and a selector that gives a time
  \<open>t\<close>. The query returns rows, and in every row every group cites, under \<open>proof\<close>, a
  delegation of the set, with its issuer under \<open>issuer\<close>, that is unexpired at \<open>t\<close>
  (its expiration is \<open>t\<close> or later, or it has none) and whose audience is the row's
  audience, which satisfies the selector's audience. When the issuer of that proof
  matches \<open>did:mailto:*\<close>, the group's \<open>attestation\<close> is a delegation of the set with a
  \<open>ucan/attest\<close> capability whose \<open>nb.proof\<close> is the proof's link, with the same
  audience, unexpired at \<open>t\<close>. Whatever the issuer, a group cites no attestation or
  such a one. When the issuer does not match \<open>did:mailto:*\<close>, the attestation clause
  passes the binding through as it is: no attestation is needed.
\<close>

theorem query_sound:
  assumes dist: "distinct (map cid ds)" and time: "sel_time selector = Some t"
  shows "(\<exists>rows. find_rows ds now selector = Inr rows)
       \<and> (\<forall>rows row g.
            find_rows ds now selector = Inr rows \<longrightarrow> row \<in> set rows \<longrightarrow> g \<in> set (r_proofs row) \<longrightarrow>
            (\<exists>d \<in> set ds.
               pr_proof g = Some (Link (cid d)) \<and> pr_issuer g = Some (Text (issuer d))
               \<and> unexpired d t
               \<and> r_audience row = Some (Text (audience d))
               \<and> text_satisfies (sel_audience selector) (audience d)
               \<and> (glob_match ''did:mailto:*'' (issuer d) \<longrightarrow>
                    (\<exists>a \<in> set ds.
                       pr_attestation g = Some (Link (cid a)) \<and> attests a (cid d)
                       \<and> audience a = audience d \<and> unexpired a t))
               \<and> (pr_attestation g = None
                    \<or> (\<exists>a \<in> set ds.
                         pr_attestation g = Some (Link (cid a)) \<and> attests a (cid d)
                         \<and> audience a = audience d \<and> unexpired a t))))
       \<and> (\<forall>b g i time requester n.
            resolve b (p_issuer g) = Some (Text i) \<longrightarrow> \<not> glob_match ''did:mailto:*'' i \<longrightarrow>
            (\<exists>bs. evaluate (buildIndex ds) (fst (attestations g (Const (Num time)) requester n)) b = Inr bs
                \<and> b \<in> set bs))"
proof (intro conjI allI impI)
  show "\<exists>rows. find_rows ds now selector = Inr rows" by (rule find_rows_total)
next
  fix rows row g
  assume fr: "find_rows ds now selector = Inr rows" and row: "row \<in> set rows"
    and g: "g \<in> set (r_proofs row)"
  from time have t: "query_time now selector = t" by (simp add: query_time_def)
  let ?q = "query now selector"
  let ?L = "length (s_proofs (q_select ?q))"
  from find_rows_bindings[OF fr row] obtain bs b where
    ev: "evaluate_all (buildIndex ds) (q_where ?q) Map.empty = Inr bs"
    and b: "b \<in> set bs" and r: "row = select_row (q_select ?q) b" by blast
  from evaluate_all_sound[OF ev b] have all: "\<forall>c \<in> set (q_where ?q). holds (buildIndex ds) b c"
    by (blast intro: map_le_refl)
  from r have rp: "r_proofs row = map (select_group b) (s_proofs (q_select ?q))"
    by (simp add: select_row_def)
  with g obtain i where i: "i < ?L" "g = select_group b (s_proofs (q_select ?q) ! i)"
    by (auto simp add: in_set_conv_nth)
  let ?needs = "if length (query_keys selector) > 0 then map Some (query_keys selector) else [None]"
  from query_by_position[where now = now and selector = selector] i(1)
  have pos: "s_proofs (q_select ?q) ! i = fst (proof_group (?needs ! i) (2 + 4 * i))"
    "q_where ?q ! i = fst (where_clause (Var 0) (Var 1) (Const (Num t))
                             (fst (proof_group (?needs ! i) (2 + 4 * i))) (2 + 4 * length ?needs + 10 * i))"
    "length (q_where ?q) = ?L + 2"
    unfolding t by simp_all
  let ?grp = "fst (proof_group (?needs ! i) (2 + 4 * i))"
  have grp: "p_issuer ?grp = Var (2 + 4 * i)" "p_proof ?grp = Var (2 + 4 * i + 2)"
    "p_attestation ?grp = Var (2 + 4 * i + 3)"
    by (simp_all add: proof_group_def)
  from pos(3) i(1) have "q_where ?q ! i \<in> set (q_where ?q)" by simp
  with all pos(2) have "holds (buildIndex ds) b
      (fst (where_clause (Var 0) (Var 1) (Const (Num t)) ?grp (2 + 4 * length ?needs + 10 * i)))"
    by metis
  from holds_where_clause_sound[OF dist this] obtain d where d: "d \<in> set ds"
    "resolve b (p_proof ?grp) = Some (Link (cid d))" "resolve b (Var 1) = Some (Text (audience d))"
    "resolve b (p_issuer ?grp) = Some (Text (issuer d))" "unexpired d t"
    "glob_match ''did:mailto:*'' (issuer d) \<longrightarrow>
       (\<exists>a \<in> set ds. resolve b (p_attestation ?grp) = Some (Link (cid a))
          \<and> attests a (cid d) \<and> audience a = audience d \<and> unexpired a t)" by blast
  from pos(3) have "Text_match (Var 1) (sel_audience selector) \<in> set (q_where ?q)"
    using query_parts[of selector now] by auto
  with all have "holds (buildIndex ds) b (Text_match (Var 1) (sel_audience selector))" by blast
  with d(3) have ts: "text_satisfies (sel_audience selector) (audience d)"
    unfolding holds_Text_match by (cases "sel_audience selector") auto
  from r d(3) have ra: "r_audience row = Some (Text (audience d))"
    using query_parts[of selector now] by (auto simp add: select_row_def)
  from i(2) pos(1) d(2) have pp: "pr_proof g = Some (Link (cid d))" by (simp add: select_group_def)
  from i(2) pos(1) d(4) have pi: "pr_issuer g = Some (Text (issuer d))" by (simp add: select_group_def)
  from i(2) have "pr_attestation g = resolve b (p_attestation (s_proofs (q_select ?q) ! i))"
    by (simp add: select_group_def)
  then have pa: "pr_attestation g = b (2 + 4 * i + 3)"
    unfolding pos(1) grp(3) by simp
  have cited: "pr_attestation g = None
        \<or> (\<exists>a \<in> set ds. pr_attestation g = Some (Link (cid a)) \<and> attests a (cid d)
               \<and> audience a = audience d \<and> unexpired a t)"
  proof (cases "b (2 + 4 * i + 3)")
    case None
    with pa show ?thesis by simp
  next
    case (Some v)
    with query_gate[OF ev b i(1)]
    have "holds (buildIndex ds) b
            (fst (Attestation_match (Var (2 + 4 * i + 3)) (Var (2 + 4 * i + 2)) (Const (Num t)) (Var 1)
                   (2 + 4 * ?L + 10 * i + 8)))"
      unfolding t by simp
    then obtain a j pv where a: "a \<in> set ds" "j < length (capabilities a)"
      "resolve b (Var (2 + 4 * i + 3)) = Some (Link (cid a))"
      "resolve b (Var 1) = Some (Text (audience a))"
      "can (capabilities a ! j) = ''ucan/attest''" "resolve b (Var (2 + 4 * i + 2)) = Some pv"
      "(''proof'', pv) \<in> set (nb (capabilities a ! j))" "unexpired a t"
      unfolding holds_Attestation_match[OF dist] by blast
    from a(6) d(2)[unfolded grp(2)] have "pv = Link (cid d)" by simp
    with a(2,5,7) have "attests a (cid d)"
      unfolding attests_def using nth_mem by blast
    moreover from a(4) d(3) have "audience a = audience d" by simp
    moreover from a(3) pa have "pr_attestation g = Some (Link (cid a))" by simp
    ultimately show ?thesis using a(1,8) by blast
  qed
  from d(6)[unfolded grp(3)] pa have mail: "glob_match ''did:mailto:*'' (issuer d) \<longrightarrow>
       (\<exists>a \<in> set ds. pr_attestation g = Some (Link (cid a))
          \<and> attests a (cid d) \<and> audience a = audience d \<and> unexpired a t)"
    by simp
  from d(1,5) ts ra pp pi mail cited
  show "(\<exists>d \<in> set ds.
          pr_proof g = Some (Link (cid d)) \<and> pr_issuer g = Some (Text (issuer d))
          \<and> unexpired d t
          \<and> r_audience row = Some (Text (audience d))
          \<and> text_satisfies (sel_audience selector) (audience d)
          \<and> (glob_match ''did:mailto:*'' (issuer d) \<longrightarrow>
               (\<exists>a \<in> set ds.
                  pr_attestation g = Some (Link (cid a)) \<and> attests a (cid d)
                  \<and> audience a = audience d \<and> unexpired a t))
          \<and> (pr_attestation g = None
               \<or> (\<exists>a \<in> set ds.
                    pr_attestation g = Some (Link (cid a)) \<and> attests a (cid d)
                    \<and> audience a = audience d \<and> unexpired a t)))"
    by blast
next
  fix b :: bindings and g :: proof_selector and i time requester n
  assume "resolve b (p_issuer g) = Some (Text i)" "\<not> glob_match ''did:mailto:*'' i"
  from attestations_bypass[OF this]
  show "\<exists>bs. evaluate (buildIndex ds) (fst (attestations g (Const (Num time)) requester n)) b = Inr bs
           \<and> b \<in> set bs" .
qed

theorem query_sound_witness:
  "distinct (map cid [fixture_grant, fixture_login, fixture_attestation])
   \<and> sel_time fixture_selector = Some 50
   \<and> find_rows [fixture_grant, fixture_login, fixture_attestation] 1000 fixture_selector =
       Inr [\<lparr>r_proofs =
               [\<lparr>pr_issuer = Some (Text ''did:key:space''),
                 pr_can = Some (Text ''store/add''), pr_proof = Some (Link ''grant''),
                 pr_attestation = None, pr_need = Some ''store/add''\<rparr>],
              r_subject = Some (Text ''did:key:space''),
              r_audience = Some (Text ''did:key:alice'')\<rparr>,
            \<lparr>r_proofs =
               [\<lparr>pr_issuer = Some (Text ''did:mailto:web.mail:alice''),
                 pr_can = Some (Text ''*''), pr_proof = Some (Link ''login''),
                 pr_attestation = Some (Link ''attestation''),
                 pr_need = Some ''store/add''\<rparr>],
              r_subject = Some (Text ''ucan:*''),
              r_audience = Some (Text ''did:key:alice'')\<rparr>,
            \<lparr>r_proofs =
               [\<lparr>pr_issuer = Some (Text ''did:mailto:web.mail:alice''),
                 pr_can = Some (Text ''*''), pr_proof = Some (Link ''login''),
                 pr_attestation = Some (Link ''attestation''),
                 pr_need = Some ''store/add''\<rparr>],
              r_subject = Some (Text ''did:mailto:web.mail:alice''),
              r_audience = Some (Text ''did:key:alice'')\<rparr>]
   \<and> (\<exists>d \<in> set [fixture_grant, fixture_login, fixture_attestation].
         cid d = ''grant'' \<and> expiration d = Some 100 \<and> unexpired d 50
         \<and> \<not> glob_match ''did:mailto:*'' (issuer d))
   \<and> (\<exists>d \<in> set [fixture_grant, fixture_login, fixture_attestation].
         cid d = ''login'' \<and> unexpired d 50
         \<and> glob_match ''did:mailto:*'' (issuer d)
         \<and> (\<exists>a \<in> set [fixture_grant, fixture_login, fixture_attestation].
               Some (Link ''attestation'') = Some (Link (cid a)) \<and> attests a (cid d)
               \<and> audience a = audience d \<and> unexpired a 50))
   \<and> resolve [2 \<mapsto> Text ''did:key:space''] (Var 2) = Some (Text ''did:key:space'')
   \<and> \<not> glob_match ''did:mailto:*'' ''did:key:space''
   \<and> (\<exists>bs. evaluate (buildIndex [fixture_grant, fixture_login, fixture_attestation])
              (fst (attestations (fst (proof_group (Some ''store/add'') 2)) (Const (Num 50)) (Var 1) 14))
              [2 \<mapsto> Text ''did:key:space''] = Inr bs
          \<and> [2 \<mapsto> Text ''did:key:space''] \<in> set bs)"
proof -
  let ?ds = "[fixture_grant, fixture_login, fixture_attestation]"
  let ?gG = "\<lparr>pr_issuer = Some (Text ''did:key:space''),
             pr_can = Some (Text ''store/add''), pr_proof = Some (Link ''grant''),
             pr_attestation = None, pr_need = Some ''store/add''\<rparr>"
  let ?gL = "\<lparr>pr_issuer = Some (Text ''did:mailto:web.mail:alice''),
             pr_can = Some (Text ''*''), pr_proof = Some (Link ''login''),
             pr_attestation = Some (Link ''attestation''),
             pr_need = Some ''store/add''\<rparr>"
  let ?rowG = "\<lparr>r_proofs = [?gG], r_subject = Some (Text ''did:key:space''),
                r_audience = Some (Text ''did:key:alice'')\<rparr>"
  let ?row1 = "\<lparr>r_proofs = [?gL], r_subject = Some (Text ''ucan:*''),
                r_audience = Some (Text ''did:key:alice'')\<rparr>"
  let ?row2 = "\<lparr>r_proofs = [?gL], r_subject = Some (Text ''did:mailto:web.mail:alice''),
                r_audience = Some (Text ''did:key:alice'')\<rparr>"
  have dist: "distinct (map cid ?ds)"
    by (simp add: fixture_grant_def fixture_login_def fixture_attestation_def)
  have st: "sel_time fixture_selector = Some 50" by (simp add: fixture_selector_def)
  have rows: "find_rows ?ds 1000 fixture_selector = Inr [?rowG, ?row1, ?row2]"
    by code_simp
  have cids: "cid fixture_grant = ''grant''" "cid fixture_login = ''login''"
    "cid fixture_attestation = ''attestation''"
    by (simp_all add: fixture_grant_def fixture_login_def fixture_attestation_def)
  note sound = query_sound[OF dist st, where now = 1000]
  from sound have every: "\<forall>rows row g.
      find_rows ?ds 1000 fixture_selector = Inr rows \<longrightarrow> row \<in> set rows \<longrightarrow> g \<in> set (r_proofs row) \<longrightarrow>
      (\<exists>d \<in> set ?ds.
         pr_proof g = Some (Link (cid d)) \<and> pr_issuer g = Some (Text (issuer d))
         \<and> unexpired d 50
         \<and> r_audience row = Some (Text (audience d))
         \<and> text_satisfies (sel_audience fixture_selector) (audience d)
         \<and> (glob_match ''did:mailto:*'' (issuer d) \<longrightarrow>
              (\<exists>a \<in> set ?ds.
                 pr_attestation g = Some (Link (cid a)) \<and> attests a (cid d)
                 \<and> audience a = audience d \<and> unexpired a 50))
         \<and> (pr_attestation g = None
              \<or> (\<exists>a \<in> set ?ds.
                   pr_attestation g = Some (Link (cid a)) \<and> attests a (cid d)
                   \<and> audience a = audience d \<and> unexpired a 50)))"
    by blast
  have inG: "?rowG \<in> set [?rowG, ?row1, ?row2]" "?gG \<in> set (r_proofs ?rowG)" by simp_all
  from every[rule_format, OF rows inG] obtain d where d: "d \<in> set ?ds"
    "pr_proof ?gG = Some (Link (cid d))" "unexpired d 50"
    by blast
  from d(2) have cd: "cid d = ''grant''" by simp
  with d(1) cids have dg: "d = fixture_grant" by auto
  have "expiration fixture_grant = Some 100" "\<not> glob_match ''did:mailto:*'' (issuer fixture_grant)"
    by (simp_all add: fixture_grant_def)
  with d(1,3) dg cd have second: "\<exists>d \<in> set ?ds.
         cid d = ''grant'' \<and> expiration d = Some 100 \<and> unexpired d 50
         \<and> \<not> glob_match ''did:mailto:*'' (issuer d)"
    by blast
  have inL: "?row2 \<in> set [?rowG, ?row1, ?row2]" "?gL \<in> set (r_proofs ?row2)" by simp_all
  from every[rule_format, OF rows inL] obtain e where e: "e \<in> set ?ds"
    "pr_proof ?gL = Some (Link (cid e))" "unexpired e 50"
    "glob_match ''did:mailto:*'' (issuer e) \<longrightarrow>
       (\<exists>a \<in> set ?ds. pr_attestation ?gL = Some (Link (cid a)) \<and> attests a (cid e)
          \<and> audience a = audience e \<and> unexpired a 50)"
    by blast
  from e(2) have c: "cid e = ''login''" by simp
  with e(1) cids have "e = fixture_login" by auto
  then have "glob_match ''did:mailto:*'' (issuer e)" by (simp add: fixture_login_def)
  with e(4) have "\<exists>a \<in> set ?ds. Some (Link ''attestation'') = Some (Link (cid a)) \<and> attests a (cid e)
          \<and> audience a = audience e \<and> unexpired a 50"
    by simp
  with e(1,3) c \<open>glob_match ''did:mailto:*'' (issuer e)\<close> have third: "\<exists>d \<in> set ?ds.
         cid d = ''login'' \<and> unexpired d 50
         \<and> glob_match ''did:mailto:*'' (issuer d)
         \<and> (\<exists>a \<in> set ?ds.
               Some (Link ''attestation'') = Some (Link (cid a)) \<and> attests a (cid d)
               \<and> audience a = audience d \<and> unexpired a 50)"
    by blast
  have r: "resolve [2 \<mapsto> Text ''did:key:space''] (p_issuer (fst (proof_group (Some ''store/add'') 2)))
             = Some (Text ''did:key:space'')"
    by (simp add: proof_group_def)
  have nm: "\<not> glob_match ''did:mailto:*'' ''did:key:space''" by simp
  from sound have "\<forall>b g i time requester n.
      resolve b (p_issuer g) = Some (Text i) \<longrightarrow> \<not> glob_match ''did:mailto:*'' i \<longrightarrow>
      (\<exists>bs. evaluate (buildIndex ?ds) (fst (attestations g (Const (Num time)) requester n)) b = Inr bs
          \<and> b \<in> set bs)"
    by blast
  from this[rule_format, OF r nm, of 50 "Var 1" 14]
  have fourth: "\<exists>bs. evaluate (buildIndex ?ds)
              (fst (attestations (fst (proof_group (Some ''store/add'') 2)) (Const (Num 50)) (Var 1) 14))
              [2 \<mapsto> Text ''did:key:space''] = Inr bs
          \<and> [2 \<mapsto> Text ''did:key:space''] \<in> set bs" .
  from dist st rows second third nm fourth show ?thesis by simp
qed
text \<open>
  C2, as the claim states it, fails twice. The proof of an implicit delegation need not
  come from the subject: \<open>implicit\<close> calls \<open>explicit\<close> on the proof with the audience,
  the subject, the ability and the time, and leaves the issuer of the proof a fresh
  variable. The relay below is accepted for the subject \<open>did:key:space\<close> on the strength
  of a grant on that space issued by \<open>did:key:mallory\<close>. And when the selected subject
  is \<open>ucan:*\<close> itself, a proof that is only a \<open>ucan:*\<close> delegation is an explicit grant on
  that subject: the forward below, whose only proof is the login, is accepted.
\<close>

theorem implicit_accepts_counterexample:
  "accepts (buildIndex [fixture_relay, fixture_stranger]) (fst (implicit (Const (Link ''relay''))
        \<lparr>m_audience = Some (Const (Text ''did:key:bob'')),
         m_issuer = Some (Const (Text ''did:key:alice'')),
         m_subject = Some (Const (Text ''did:key:space'')), m_can = Some (Const (Text ''*'')),
         m_time = Some (Const (Num 50))\<rparr> 0))
   \<and> issuer fixture_relay = ''did:key:alice'' \<and> ''did:key:alice'' \<noteq> ''did:key:space''
   \<and> proofs fixture_relay = [''stranger'']
   \<and> issuer fixture_stranger = ''did:key:mallory'' \<and> ''did:key:mallory'' \<noteq> ''did:key:space''
   \<and> accepts (buildIndex [fixture_forward, fixture_login]) (fst (implicit (Const (Link ''forward''))
        \<lparr>m_audience = Some (Const (Text ''did:key:bob'')),
         m_issuer = Some (Const (Text ''did:key:alice'')),
         m_subject = Some (Const (Text ''ucan:*'')), m_can = Some (Const (Text ''*'')),
         m_time = Some (Const (Num 50))\<rparr> 0))
   \<and> issuer fixture_forward = ''did:key:alice'' \<and> ''did:key:alice'' \<noteq> ''ucan:*''
   \<and> proofs fixture_forward = [''login'']
   \<and> list_all (\<lambda>k. with' k = ''ucan:*'') (capabilities fixture_login)"
  by code_simp

text \<open>
  C2, amended. In a delegation set whose links are distinct, the implicit matcher accepts
  the delegation with link \<open>c\<close>, for a selected audience, issuer, subject, ability and
  time, exactly when the set holds a delegation with that link, that audience and
  that issuer, unexpired at the time, with a capability of that ability whose resource
  is \<open>ucan:*\<close>, and either the issuer is the subject, or one of the proofs of the
  delegation is in the set, is unexpired at the time, has the issuer as its audience
  and has a capability of that ability whose resource is the subject, whoever issued that
  proof. The chain is followed one level only: when the subject is neither the issuer
  nor \<open>ucan:*\<close>, and every proof of the delegation has capabilities on \<open>ucan:*\<close> alone,
  the delegation is not accepted.
\<close>

theorem implicit_accepts_iff:
  assumes dist: "distinct (map cid ds)"
  shows "(accepts (buildIndex ds) (fst (implicit (Const (Link c))
            \<lparr>m_audience = Some (Const (Text X)), m_issuer = Some (Const (Text I)),
             m_subject = Some (Const (Text S)), m_can = Some (Const (Text A)),
             m_time = Some (Const (Num t))\<rparr> n)) \<longleftrightarrow>
          (\<exists>d \<in> set ds. cid d = c \<and> audience d = X \<and> issuer d = I \<and> unexpired d t
             \<and> (\<exists>k \<in> set (capabilities d). can k = A \<and> with' k = ''ucan:*'')
             \<and> (I = S
                 \<or> (\<exists>p \<in> set ds. cid p \<in> set (proofs d) \<and> audience p = I \<and> unexpired p t
                       \<and> (\<exists>k \<in> set (capabilities p). can k = A \<and> with' k = S)))))
       \<and> (I \<noteq> S \<longrightarrow> S \<noteq> ''ucan:*'' \<longrightarrow>
           (\<forall>d \<in> set ds. \<forall>p \<in> set ds. cid d = c \<longrightarrow> cid p \<in> set (proofs d) \<longrightarrow>
              (\<forall>k \<in> set (capabilities p). with' k = ''ucan:*'')) \<longrightarrow>
           \<not> accepts (buildIndex ds) (fst (implicit (Const (Link c))
               \<lparr>m_audience = Some (Const (Text X)), m_issuer = Some (Const (Text I)),
                m_subject = Some (Const (Text S)), m_can = Some (Const (Text A)),
                m_time = Some (Const (Num t))\<rparr> n)))"
proof -
  let ?clause = "fst (implicit (Const (Link c))
            \<lparr>m_audience = Some (Const (Text X)), m_issuer = Some (Const (Text I)),
             m_subject = Some (Const (Text S)), m_can = Some (Const (Text A)),
             m_time = Some (Const (Num t))\<rparr> n)"
  have iff: "accepts (buildIndex ds) ?clause \<longleftrightarrow>
          (\<exists>d \<in> set ds. cid d = c \<and> audience d = X \<and> issuer d = I \<and> unexpired d t
             \<and> (\<exists>k \<in> set (capabilities d). can k = A \<and> with' k = ''ucan:*'')
             \<and> (I = S
                 \<or> (\<exists>p \<in> set ds. cid p \<in> set (proofs d) \<and> audience p = I \<and> unexpired p t
                       \<and> (\<exists>k \<in> set (capabilities p). can k = A \<and> with' k = S))))"
    unfolding accepts_iff_holds[OF implicit_closed_well_moded] holds_implicit_closed[OF dist] ..
  have "\<not> accepts (buildIndex ds) ?clause"
    if "I \<noteq> S" "S \<noteq> ''ucan:*''"
      "\<forall>d \<in> set ds. \<forall>p \<in> set ds. cid d = c \<longrightarrow> cid p \<in> set (proofs d) \<longrightarrow>
              (\<forall>k \<in> set (capabilities p). with' k = ''ucan:*'')"
    unfolding iff using that by blast
  with iff show ?thesis by blast
qed

theorem implicit_accepts_iff_witness:
  "distinct (map cid [fixture_login, fixture_recovery])
   \<and> accepts (buildIndex [fixture_login, fixture_recovery]) (fst (implicit (Const (Link ''login''))
        \<lparr>m_audience = Some (Const (Text ''did:key:alice'')),
         m_issuer = Some (Const (Text ''did:mailto:web.mail:alice'')),
         m_subject = Some (Const (Text ''did:key:space'')), m_can = Some (Const (Text ''*'')),
         m_time = Some (Const (Num 50))\<rparr> 0))
   \<and> distinct (map cid [fixture_forward, fixture_login])
   \<and> ''did:key:alice'' \<noteq> ''did:key:space'' \<and> ''did:key:space'' \<noteq> ''ucan:*''
   \<and> list_all (\<lambda>k. with' k = ''ucan:*'') (capabilities fixture_login)
   \<and> \<not> accepts (buildIndex [fixture_forward, fixture_login]) (fst (implicit (Const (Link ''forward''))
        \<lparr>m_audience = Some (Const (Text ''did:key:bob'')),
         m_issuer = Some (Const (Text ''did:key:alice'')),
         m_subject = Some (Const (Text ''did:key:space'')), m_can = Some (Const (Text ''*'')),
         m_time = Some (Const (Num 50))\<rparr> 0))"
proof -
  have d1: "distinct (map cid [fixture_login, fixture_recovery])"
    by (simp add: fixture_login_def fixture_recovery_def)
  have d2: "distinct (map cid [fixture_forward, fixture_login])"
    by (simp add: fixture_login_def fixture_forward_def)
  have r: "\<exists>d \<in> set [fixture_login, fixture_recovery].
      cid d = ''login'' \<and> audience d = ''did:key:alice'' \<and> issuer d = ''did:mailto:web.mail:alice''
      \<and> unexpired d 50
      \<and> (\<exists>k \<in> set (capabilities d). can k = ''*'' \<and> with' k = ''ucan:*'')
      \<and> (''did:mailto:web.mail:alice'' = ''did:key:space''
          \<or> (\<exists>p \<in> set [fixture_login, fixture_recovery].
                cid p \<in> set (proofs d) \<and> audience p = ''did:mailto:web.mail:alice'' \<and> unexpired p 50
                \<and> (\<exists>k \<in> set (capabilities p). can k = ''*'' \<and> with' k = ''did:key:space'')))"
    by (simp add: fixture_login_def fixture_recovery_def unexpired_def)
  from implicit_accepts_iff[OF d1, of "''login''" "''did:key:alice''" "''did:mailto:web.mail:alice''"
      "''did:key:space''" "''*''" 50 0] r
  have a: "accepts (buildIndex [fixture_login, fixture_recovery]) (fst (implicit (Const (Link ''login''))
        \<lparr>m_audience = Some (Const (Text ''did:key:alice'')),
         m_issuer = Some (Const (Text ''did:mailto:web.mail:alice'')),
         m_subject = Some (Const (Text ''did:key:space'')), m_can = Some (Const (Text ''*'')),
         m_time = Some (Const (Num 50))\<rparr> 0))"
    by blast
  have n1: "''did:key:alice'' \<noteq> ''did:key:space''" "''did:key:space'' \<noteq> ''ucan:*''" by simp_all
  have l: "list_all (\<lambda>k. with' k = ''ucan:*'') (capabilities fixture_login)"
    by (simp add: fixture_login_def)
  have h: "\<forall>d \<in> set [fixture_forward, fixture_login]. \<forall>p \<in> set [fixture_forward, fixture_login].
      cid d = ''forward'' \<longrightarrow> cid p \<in> set (proofs d) \<longrightarrow>
      (\<forall>k \<in> set (capabilities p). with' k = ''ucan:*'')"
    by (simp add: fixture_login_def fixture_forward_def)
  from implicit_accepts_iff[OF d2, of "''forward''" "''did:key:bob''" "''did:key:alice''"
      "''did:key:space''" "''*''" 50 0] n1 h
  have b: "\<not> accepts (buildIndex [fixture_forward, fixture_login]) (fst (implicit (Const (Link ''forward''))
        \<lparr>m_audience = Some (Const (Text ''did:key:bob'')),
         m_issuer = Some (Const (Text ''did:key:alice'')),
         m_subject = Some (Const (Text ''did:key:space'')), m_can = Some (Const (Text ''*'')),
         m_time = Some (Const (Num 50))\<rparr> 0))"
    by blast
  from d1 a d2 n1 l b show ?thesis by blast
qed

text \<open>
  C3, as the claim states it, fails: an account (a \<open>did:mailto\<close> principal) grants
  \<open>store/add\<close> on a space directly to the agent, unexpired at the query time, and the
  query for \<open>store/add\<close> by that agent returns no row, because no attestation of the
  grant is in the set.
\<close>

theorem query_complete_counterexample:
  "fixture_mail_grant \<in> set [fixture_mail_grant]
   \<and> capabilities fixture_mail_grant = [\<lparr>can = ''store/add'', with' = ''did:key:space'', nb = []\<rparr>]
   \<and> audience fixture_mail_grant = ''did:key:alice''
   \<and> unexpired fixture_mail_grant 50
   \<and> find_rows [fixture_mail_grant] 50
        \<lparr>sel_audience = Exact ''did:key:alice'', sel_can = Some [''store/add''],
         sel_subject = None, sel_time = None\<rparr> = Inr []"
  by code_simp

text \<open>
  C3, amended. In a delegation set whose links are distinct, let a delegation grant
  ability \<open>A\<close> on subject \<open>S\<close> to audience \<open>X\<close> directly (one of its capabilities
  has \<open>can = A\<close> and \<open>with = S\<close>), unexpired at the query time, and let its issuer not
  match \<open>did:mailto:*\<close>, or let the set hold an attestation of it for \<open>X\<close> that is
  unexpired at the query time. Then the query for audience \<open>X\<close> and the one ability
  \<open>A\<close>, with no subject constraint, returns a row whose subject is \<open>S\<close>, whose
  audience is \<open>X\<close> and which cites the grant as a proof.
\<close>

theorem query_complete_explicit:
  assumes dist: "distinct (map cid ds)"
    and d: "d \<in> set ds" "k \<in> set (capabilities d)" "can k = A" "with' k = S" "audience d = X"
      "unexpired d (query_time now selector)"
    and gate: "\<not> glob_match ''did:mailto:*'' (issuer d)
       \<or> (\<exists>a \<in> set ds. attests a (cid d) \<and> audience a = X \<and> unexpired a (query_time now selector))"
    and sel: "sel_audience selector = Exact X" "sel_can selector = Some [A]"
      "sel_subject selector = None"
  shows "\<exists>rows. find_rows ds now selector = Inr rows
           \<and> (\<exists>row \<in> set rows. r_subject row = Some (Text S) \<and> r_audience row = Some (Text X)
                \<and> (\<exists>g \<in> set (r_proofs row). pr_proof g = Some (Link (cid d))))"
proof -
  let ?t = "query_time now selector"
  let ?db = "buildIndex ds"
  let ?g = "fst (proof_group (Some A) 2)"
  let ?c0 = "fst (where_clause (Var 0) (Var 1) (Const (Num ?t)) ?g 6)"
  from d(2) obtain i where i: "i < length (capabilities d)" "capabilities d ! i = k"
    by (metis in_set_conv_nth)
  define base :: bindings where
    "base = [0 \<mapsto> Text S, 1 \<mapsto> Text X, 2 \<mapsto> Text (issuer d), 3 \<mapsto> Text A, 4 \<mapsto> Link (cid d),
             6 \<mapsto> Entity (cid d) i, 7 \<mapsto> expiration_scalar d]"
  have "\<exists>b2 :: bindings.
          b2 0 = Some (Text S) \<and> b2 1 = Some (Text X) \<and> b2 2 = Some (Text (issuer d))
          \<and> b2 3 = Some (Text A) \<and> b2 4 = Some (Link (cid d)) \<and> b2 6 = Some (Entity (cid d) i)
          \<and> b2 7 = Some (expiration_scalar d)
          \<and> (\<not> glob_match ''did:mailto:*'' (issuer d)
              \<or> (\<exists>a \<in> set ds. \<exists>j < length (capabilities a).
                    b2 5 = Some (Link (cid a)) \<and> b2 14 = Some (Entity (cid a) j)
                    \<and> b2 15 = Some (expiration_scalar a)
                    \<and> can (capabilities a ! j) = ''ucan/attest''
                    \<and> (''proof'', Link (cid d)) \<in> set (nb (capabilities a ! j))
                    \<and> audience a = audience d \<and> unexpired a ?t))"
    using gate
  proof
    assume "\<not> glob_match ''did:mailto:*'' (issuer d)"
    then show ?thesis by (intro exI[of _ base]) (simp add: base_def)
  next
    assume "\<exists>a \<in> set ds. attests a (cid d) \<and> audience a = X \<and> unexpired a ?t"
    then obtain a k' where a: "a \<in> set ds" "k' \<in> set (capabilities a)" "can k' = ''ucan/attest''"
      "(''proof'', Link (cid d)) \<in> set (nb k')" "audience a = X" "unexpired a ?t"
      unfolding attests_def by blast
    from a(2) obtain j where j: "j < length (capabilities a)" "capabilities a ! j = k'"
      by (metis in_set_conv_nth)
    let ?b = "base(5 \<mapsto> Link (cid a), 14 \<mapsto> Entity (cid a) j, 15 \<mapsto> expiration_scalar a)"
    have "\<exists>a \<in> set ds. \<exists>j < length (capabilities a).
            ?b 5 = Some (Link (cid a)) \<and> ?b 14 = Some (Entity (cid a) j)
            \<and> ?b 15 = Some (expiration_scalar a)
            \<and> can (capabilities a ! j) = ''ucan/attest''
            \<and> (''proof'', Link (cid d)) \<in> set (nb (capabilities a ! j))
            \<and> audience a = audience d \<and> unexpired a ?t"
      using a j d(5) by (intro bexI[of _ a] exI[of _ j]) simp_all
    then show ?thesis by (intro exI[of _ ?b]) (simp add: base_def)
  qed
  then obtain b2 :: bindings where b2:
    "b2 0 = Some (Text S)" "b2 1 = Some (Text X)" "b2 2 = Some (Text (issuer d))"
    "b2 3 = Some (Text A)" "b2 4 = Some (Link (cid d))" "b2 6 = Some (Entity (cid d) i)"
    "b2 7 = Some (expiration_scalar d)"
    and gate2: "\<not> glob_match ''did:mailto:*'' (issuer d)
              \<or> (\<exists>a \<in> set ds. \<exists>j < length (capabilities a).
                    b2 5 = Some (Link (cid a)) \<and> b2 14 = Some (Entity (cid a) j)
                    \<and> b2 15 = Some (expiration_scalar a)
                    \<and> can (capabilities a ! j) = ''ucan/attest''
                    \<and> (''proof'', Link (cid d)) \<in> set (nb (capabilities a ! j))
                    \<and> audience a = audience d \<and> unexpired a ?t)"
    by blast
  have q: "query now selector =
     \<lparr>q_select = \<lparr>s_proofs = [?g], s_subject = Var 0, s_audience = Var 1\<rparr>,
      q_where = [?c0, Text_match (Var 0) (GlobOf ''*''), Text_match (Var 1) (Exact X)]\<rparr>"
    using query_single[OF sel(2), of now] sel(1,3) by simp
  have h0: "holds ?db b2 ?c0"
    using holds_single_group[OF dist d(1) i(1) d(6) gate2] b2 i(2) d(3,4,5) by simp
  have h1: "holds ?db b2 (Text_match (Var 0) (GlobOf ''*''))"
    using b2(1) by (simp add: glob_match_any)
  have h2: "holds ?db b2 (Text_match (Var 1) (Exact X))"
    using b2(2) by simp
  from find_rows_total[of ds now selector] obtain rows where rows: "find_rows ds now selector = Inr rows"
    by blast
  then obtain bs where ev: "evaluate_all ?db (q_where (query now selector)) Map.empty = Inr bs"
    and rs: "rows = map (select_row (q_select (query now selector))) bs"
    by (auto simp add: find_rows_def DB_query_def split: sum.splits)
  from h0 h1 h2 have "\<forall>c \<in> set (q_where (query now selector)). holds ?db b2 c"
    by (simp add: q)
  from evaluate_all_complete[OF ev _ this] obtain b' where b': "b' \<in> set bs" "b' \<subseteq>\<^sub>m b2"
    by auto
  from evaluate_all_sound[OF ev b'(1)] have all: "\<forall>c \<in> set (q_where (query now selector)). holds ?db b' c"
    by (blast intro: map_le_refl)
  from all have "holds ?db b' (Text_match (Var 0) (GlobOf ''*''))" by (simp add: q)
  then obtain x0 where "b' 0 = Some x0" by auto
  with b'(2) b2(1) have v0: "b' 0 = Some (Text S)" by (auto simp add: map_le_def dom_def)
  from all have "holds ?db b' (Text_match (Var 1) (Exact X))" by (simp add: q)
  then have v1: "b' 1 = Some (Text X)" by simp
  from all have "holds ?db b' ?c0" by (simp add: q)
  from holds_where_clause_sound[OF dist this] obtain d' :: delegation where "resolve b' (p_proof ?g) = Some (Link (cid d'))"
    by blast
  then obtain x4 where "b' 4 = Some x4" by (simp add: proof_group_def)
  with b'(2) b2(5) have v4: "b' 4 = Some (Link (cid d))" by (auto simp add: map_le_def dom_def)
  let ?row = "select_row (q_select (query now selector)) b'"
  from b'(1) rs have "?row \<in> set rows" by simp
  moreover from v0 v1 have "r_subject ?row = Some (Text S)" "r_audience ?row = Some (Text X)"
    by (simp_all add: q select_row_def)
  moreover from v4 have "\<exists>g \<in> set (r_proofs ?row). pr_proof g = Some (Link (cid d))"
    by (simp add: q select_row_def select_group_def proof_group_def)
  ultimately show ?thesis using rows by blast
qed


theorem query_complete_explicit_witness:
  "distinct (map cid [fixture_grant])
   \<and> fixture_grant \<in> set [fixture_grant]
   \<and> \<lparr>can = ''store/add'', with' = ''did:key:space'', nb = []\<rparr> \<in> set (capabilities fixture_grant)
   \<and> audience fixture_grant = ''did:key:alice''
   \<and> unexpired fixture_grant (query_time 0 fixture_selector)
   \<and> \<not> glob_match ''did:mailto:*'' (issuer fixture_grant)
   \<and> (\<exists>rows. find_rows [fixture_grant] 0 fixture_selector = Inr rows
        \<and> (\<exists>row \<in> set rows. r_subject row = Some (Text ''did:key:space'')
              \<and> r_audience row = Some (Text ''did:key:alice'')
              \<and> (\<exists>g \<in> set (r_proofs row). pr_proof g = Some (Link (cid fixture_grant)))))"
proof -
  have h: "distinct (map cid [fixture_grant])" "fixture_grant \<in> set [fixture_grant]"
    "\<lparr>can = ''store/add'', with' = ''did:key:space'', nb = []\<rparr> \<in> set (capabilities fixture_grant)"
    "audience fixture_grant = ''did:key:alice''"
    "unexpired fixture_grant (query_time 0 fixture_selector)"
    "\<not> glob_match ''did:mailto:*'' (issuer fixture_grant)"
    by (simp_all add: fixture_grant_def fixture_selector_def query_time_def unexpired_def)
  have s: "sel_audience fixture_selector = Exact ''did:key:alice''"
    "sel_can fixture_selector = Some [''store/add'']" "sel_subject fixture_selector = None"
    by (simp_all add: fixture_selector_def)
  from query_complete_explicit[of "[fixture_grant]" fixture_grant
         "\<lparr>can = ''store/add'', with' = ''did:key:space'', nb = []\<rparr>"
         "''store/add''" "''did:key:space''" "''did:key:alice''" 0 fixture_selector] h s
  have "\<exists>rows. find_rows [fixture_grant] 0 fixture_selector = Inr rows
        \<and> (\<exists>row \<in> set rows. r_subject row = Some (Text ''did:key:space'')
              \<and> r_audience row = Some (Text ''did:key:alice'')
              \<and> (\<exists>g \<in> set (r_proofs row). pr_proof g = Some (Link (cid fixture_grant))))"
    by simp
  with h show ?thesis by blast
qed

text \<open>
  C5. In a delegation set whose links are distinct, take a delegation with at least
  one capability and match it with \<open>explicit\<close>, selecting nothing but the time. When
  its expiration is \<open>t\<close>, it is accepted exactly at the times up to and including
  \<open>t\<close>; when it has no expiration, it is accepted at every time.
\<close>

theorem explicit_expiration_boundary:
  assumes dist: "distinct (map cid ds)" and d: "d \<in> set ds" "capabilities d \<noteq> []"
  shows "(\<forall>t. expiration d = Some t \<longrightarrow>
            (accepts (buildIndex ds) (fst (explicit (Const (Link (cid d)))
                \<lparr>m_audience = None, m_issuer = None, m_subject = None, m_can = None,
                 m_time = Some (Const (Num time))\<rparr> n)) \<longleftrightarrow> time \<le> t))
       \<and> (expiration d = None \<longrightarrow>
            accepts (buildIndex ds) (fst (explicit (Const (Link (cid d)))
                \<lparr>m_audience = None, m_issuer = None, m_subject = None, m_can = None,
                 m_time = Some (Const (Num time))\<rparr> n)))"
proof -
  have "accepts (buildIndex ds) (fst (explicit (Const (Link (cid d)))
                \<lparr>m_audience = None, m_issuer = None, m_subject = None, m_can = None,
                 m_time = Some (Const (Num time))\<rparr> n)) \<longleftrightarrow> unexpired d time"
    unfolding accepts_iff_holds[OF explicit_time_only_well_moded]
      holds_explicit_time_only[OF dist d] ..
  then show ?thesis by (simp add: unexpired_def)
qed

theorem explicit_expiration_boundary_witness:
  "distinct (map cid [fixture_grant, fixture_recovery])
   \<and> fixture_grant \<in> set [fixture_grant, fixture_recovery] \<and> capabilities fixture_grant \<noteq> []
   \<and> expiration fixture_grant = Some 100
   \<and> accepts (buildIndex [fixture_grant, fixture_recovery]) (fst (explicit (Const (Link (cid fixture_grant)))
         \<lparr>m_audience = None, m_issuer = None, m_subject = None, m_can = None,
          m_time = Some (Const (Num 100))\<rparr> 0))
   \<and> \<not> accepts (buildIndex [fixture_grant, fixture_recovery]) (fst (explicit (Const (Link (cid fixture_grant)))
         \<lparr>m_audience = None, m_issuer = None, m_subject = None, m_can = None,
          m_time = Some (Const (Num 101))\<rparr> 0))
   \<and> fixture_recovery \<in> set [fixture_grant, fixture_recovery] \<and> capabilities fixture_recovery \<noteq> []
   \<and> expiration fixture_recovery = None
   \<and> accepts (buildIndex [fixture_grant, fixture_recovery]) (fst (explicit (Const (Link (cid fixture_recovery)))
         \<lparr>m_audience = None, m_issuer = None, m_subject = None, m_can = None,
          m_time = Some (Const (Num 1000000))\<rparr> 0))"
proof -
  have h: "distinct (map cid [fixture_grant, fixture_recovery])"
    "fixture_grant \<in> set [fixture_grant, fixture_recovery]" "capabilities fixture_grant \<noteq> []"
    "expiration fixture_grant = Some 100"
    "fixture_recovery \<in> set [fixture_grant, fixture_recovery]" "capabilities fixture_recovery \<noteq> []"
    "expiration fixture_recovery = None"
    by (simp_all add: fixture_grant_def fixture_recovery_def)
  from explicit_expiration_boundary[OF h(1,2,3), of 100 0] h(4)
  have a: "accepts (buildIndex [fixture_grant, fixture_recovery]) (fst (explicit (Const (Link (cid fixture_grant)))
         \<lparr>m_audience = None, m_issuer = None, m_subject = None, m_can = None,
          m_time = Some (Const (Num 100))\<rparr> 0))"
    by simp
  from explicit_expiration_boundary[OF h(1,2,3), of 101 0] h(4)
  have b: "\<not> accepts (buildIndex [fixture_grant, fixture_recovery]) (fst (explicit (Const (Link (cid fixture_grant)))
         \<lparr>m_audience = None, m_issuer = None, m_subject = None, m_can = None,
          m_time = Some (Const (Num 101))\<rparr> 0))"
    by simp
  from explicit_expiration_boundary[OF h(1,5,6), of 1000000 0] h(7)
  have c: "accepts (buildIndex [fixture_grant, fixture_recovery]) (fst (explicit (Const (Link (cid fixture_recovery)))
         \<lparr>m_audience = None, m_issuer = None, m_subject = None, m_can = None,
          m_time = Some (Const (Num 1000000))\<rparr> 0))"
    by simp
  from h a b c show ?thesis by blast
qed

text \<open>
  C6: the groups that \<open>query\<close> builds, and what they select. Write \<open>T\<close> for the time of
  the query, the selector's or now. When the selector's \<open>can\<close> has no key, or is left
  out, the query has exactly one group, with no \<open>need\<close>, and its clause is the match of
  the proof joined with the attestation clause, with no constraint on the ability, which
  is a fresh variable; and the query matches proofs for any ability: whatever the ability
  of a capability of a delegation that is unexpired at \<open>T\<close>, satisfies the selector's
  audience and subject, and is not issued by an account or is attested, a row cites that
  delegation with that ability. When \<open>can\<close> names \<open>k \<ge> 1\<close> abilities (an ability is
  never the empty string), the query has exactly \<open>k\<close> groups, the \<open>i\<close>-th built from
  fresh variables with the \<open>i\<close>-th ability as its \<open>need\<close>, and its clause adds, to the
  match of the proof, the glob of the named ability against the ability of the proof;
  and in every row the \<open>i\<close>-th group selects the ability of a capability of the proof
  it cites, an ability that, as a pattern, matches the \<open>i\<close>-th named ability.
\<close>

theorem query_groups:
  fixes selector :: selector and now :: int and ds :: "delegation list"
  defines "T \<equiv> (case sel_time selector of None \<Rightarrow> now | Some t \<Rightarrow> t)"
  shows "((sel_can selector = None \<or> sel_can selector = Some []) \<longrightarrow>
   (s_proofs (q_select (query now selector)) = [fst (proof_group None 2)]
   \<and> p_need (fst (proof_group None 2)) = None
   \<and> length (q_where (query now selector)) = 3
   \<and> q_where (query now selector) ! 0 =
       And (fst (match (Var 4)
       \<lparr>m_audience = Some (Var 1), m_issuer = Some (Var 2), m_subject = Some (Var 0),
        m_can = Some (Var 3), m_time = Some (Const (Num T))\<rparr> 6))
           (fst (attestations (fst (proof_group None 2)) (Const (Num T)) (Var 1) 14)))
   \<and> (distinct (map cid ds) \<longrightarrow>
     (\<forall>d \<in> set ds. \<forall>k \<in> set (capabilities d).
      unexpired d T \<longrightarrow>
      text_satisfies (sel_audience selector) (audience d) \<longrightarrow>
      text_satisfies (case sel_subject selector of None \<Rightarrow> GlobOf ''*'' | Some s \<Rightarrow> s) (with' k) \<longrightarrow>
      (\<not> glob_match ''did:mailto:*'' (issuer d)
       \<or> (\<exists>a \<in> set ds. attests a (cid d) \<and> audience a = audience d \<and> unexpired a T)) \<longrightarrow>
      (\<exists>rows. find_rows ds now selector = Inr rows
         \<and> (\<exists>row \<in> set rows. r_subject row = Some (Text (with' k))
              \<and> r_audience row = Some (Text (audience d))
              \<and> (\<exists>g. r_proofs row = [g] \<and> pr_proof g = Some (Link (cid d))
                     \<and> pr_can g = Some (Text (can k)) \<and> pr_need g = None))))))
 \<and> (\<forall>keys. sel_can selector = Some keys \<longrightarrow> keys \<noteq> [] \<longrightarrow> [] \<notin> set keys \<longrightarrow>
     (length (s_proofs (q_select (query now selector))) = length keys
      \<and> length (q_where (query now selector)) = length keys + 2
      \<and> (\<forall>i < length keys.
           s_proofs (q_select (query now selector)) ! i
             = fst (proof_group (Some (keys ! i)) (2 + 4 * i))
           \<and> p_need (s_proofs (q_select (query now selector)) ! i) = Some (keys ! i)
           \<and> q_where (query now selector) ! i =
               And (And (fst (match (Var (2 + 4 * i + 2))
                           \<lparr>m_audience = Some (Var 1), m_issuer = Some (Var (2 + 4 * i)),
                            m_subject = Some (Var 0), m_can = Some (Var (2 + 4 * i + 1)),
                            m_time = Some (Const (Num T))\<rparr>
                           (2 + 4 * length keys + 10 * i)))
                        (Glob (Const (Text (keys ! i))) (Var (2 + 4 * i + 1))))
                   (fst (attestations (fst (proof_group (Some (keys ! i)) (2 + 4 * i)))
                          (Const (Num T)) (Var 1)
                          (2 + 4 * length keys + 10 * i + 8)))))
     \<and> (distinct (map cid ds) \<longrightarrow>
       (\<forall>rows row. find_rows ds now selector = Inr rows \<longrightarrow> row \<in> set rows \<longrightarrow>
         length (r_proofs row) = length keys
         \<and> (\<forall>i < length keys.
              pr_need (r_proofs row ! i) = Some (keys ! i)
              \<and> (\<exists>d \<in> set ds. \<exists>k \<in> set (capabilities d).
                    pr_proof (r_proofs row ! i) = Some (Link (cid d))
                    \<and> pr_can (r_proofs row ! i) = Some (Text (can k))
                    \<and> glob_match (can k) (keys ! i))))))"
proof (rule conjI)
  have t: "query_time now selector = T" by (simp add: T_def query_time_def)
  show "(sel_can selector = None \<or> sel_can selector = Some []) \<longrightarrow>
   (s_proofs (q_select (query now selector)) = [fst (proof_group None 2)]
   \<and> p_need (fst (proof_group None 2)) = None
   \<and> length (q_where (query now selector)) = 3
   \<and> q_where (query now selector) ! 0 =
       And (fst (match (Var 4)
       \<lparr>m_audience = Some (Var 1), m_issuer = Some (Var 2), m_subject = Some (Var 0),
        m_can = Some (Var 3), m_time = Some (Const (Num T))\<rparr> 6))
           (fst (attestations (fst (proof_group None 2)) (Const (Num T)) (Var 1) 14)))
   \<and> (distinct (map cid ds) \<longrightarrow>
     (\<forall>d \<in> set ds. \<forall>k \<in> set (capabilities d).
      unexpired d T \<longrightarrow>
      text_satisfies (sel_audience selector) (audience d) \<longrightarrow>
      text_satisfies (case sel_subject selector of None \<Rightarrow> GlobOf ''*'' | Some s \<Rightarrow> s) (with' k) \<longrightarrow>
      (\<not> glob_match ''did:mailto:*'' (issuer d)
       \<or> (\<exists>a \<in> set ds. attests a (cid d) \<and> audience a = audience d \<and> unexpired a T)) \<longrightarrow>
      (\<exists>rows. find_rows ds now selector = Inr rows
         \<and> (\<exists>row \<in> set rows. r_subject row = Some (Text (with' k))
              \<and> r_audience row = Some (Text (audience d))
              \<and> (\<exists>g. r_proofs row = [g] \<and> pr_proof g = Some (Link (cid d))
                     \<and> pr_can g = Some (Text (can k)) \<and> pr_need g = None)))))"
  proof (rule impI)
    assume none: "sel_can selector = None \<or> sel_can selector = Some []"
    then have qk: "query_keys selector = []" by (auto simp add: query_keys_def)
    show "(s_proofs (q_select (query now selector)) = [fst (proof_group None 2)]
   \<and> p_need (fst (proof_group None 2)) = None
   \<and> length (q_where (query now selector)) = 3
   \<and> q_where (query now selector) ! 0 =
       And (fst (match (Var 4)
       \<lparr>m_audience = Some (Var 1), m_issuer = Some (Var 2), m_subject = Some (Var 0),
        m_can = Some (Var 3), m_time = Some (Const (Num T))\<rparr> 6))
           (fst (attestations (fst (proof_group None 2)) (Const (Num T)) (Var 1) 14)))
   \<and> (distinct (map cid ds) \<longrightarrow>
     (\<forall>d \<in> set ds. \<forall>k \<in> set (capabilities d).
      unexpired d T \<longrightarrow>
      text_satisfies (sel_audience selector) (audience d) \<longrightarrow>
      text_satisfies (case sel_subject selector of None \<Rightarrow> GlobOf ''*'' | Some s \<Rightarrow> s) (with' k) \<longrightarrow>
      (\<not> glob_match ''did:mailto:*'' (issuer d)
       \<or> (\<exists>a \<in> set ds. attests a (cid d) \<and> audience a = audience d \<and> unexpired a T)) \<longrightarrow>
      (\<exists>rows. find_rows ds now selector = Inr rows
         \<and> (\<exists>row \<in> set rows. r_subject row = Some (Text (with' k))
              \<and> r_audience row = Some (Text (audience d))
              \<and> (\<exists>g. r_proofs row = [g] \<and> pr_proof g = Some (Link (cid d))
                     \<and> pr_can g = Some (Text (can k)) \<and> pr_need g = None)))))"
    proof (rule conjI)
      from conjunct1[OF query_groups_by_key[of selector now, unfolded t], THEN mp, OF qk]
      show "s_proofs (q_select (query now selector)) = [fst (proof_group None 2)]
   \<and> p_need (fst (proof_group None 2)) = None
   \<and> length (q_where (query now selector)) = 3
   \<and> q_where (query now selector) ! 0 =
       And (fst (match (Var 4)
       \<lparr>m_audience = Some (Var 1), m_issuer = Some (Var 2), m_subject = Some (Var 0),
        m_can = Some (Var 3), m_time = Some (Const (Num T))\<rparr> 6))
           (fst (attestations (fst (proof_group None 2)) (Const (Num T)) (Var 1) 14))" .
    next
      show "distinct (map cid ds) \<longrightarrow>
     (\<forall>d \<in> set ds. \<forall>k \<in> set (capabilities d).
      unexpired d T \<longrightarrow>
      text_satisfies (sel_audience selector) (audience d) \<longrightarrow>
      text_satisfies (case sel_subject selector of None \<Rightarrow> GlobOf ''*'' | Some s \<Rightarrow> s) (with' k) \<longrightarrow>
      (\<not> glob_match ''did:mailto:*'' (issuer d)
       \<or> (\<exists>a \<in> set ds. attests a (cid d) \<and> audience a = audience d \<and> unexpired a T)) \<longrightarrow>
      (\<exists>rows. find_rows ds now selector = Inr rows
         \<and> (\<exists>row \<in> set rows. r_subject row = Some (Text (with' k))
              \<and> r_audience row = Some (Text (audience d))
              \<and> (\<exists>g. r_proofs row = [g] \<and> pr_proof g = Some (Link (cid d))
                     \<and> pr_can g = Some (Text (can k)) \<and> pr_need g = None))))"
      proof (intro impI ballI)
        fix d k
        assume dist: "distinct (map cid ds)" and d: "d \<in> set ds" "k \<in> set (capabilities d)"
          and u: "unexpired d T" and a: "text_satisfies (sel_audience selector) (audience d)"
          and s: "text_satisfies (case sel_subject selector of None \<Rightarrow> GlobOf ''*'' | Some s \<Rightarrow> s) (with' k)"
          and g: "\<not> glob_match ''did:mailto:*'' (issuer d)
       \<or> (\<exists>a \<in> set ds. attests a (cid d) \<and> audience a = audience d \<and> unexpired a T)"
        from query_complete_any[where now = now and selector = selector, unfolded t, OF dist none d u a s g]
        show "\<exists>rows. find_rows ds now selector = Inr rows
         \<and> (\<exists>row \<in> set rows. r_subject row = Some (Text (with' k))
              \<and> r_audience row = Some (Text (audience d))
              \<and> (\<exists>g. r_proofs row = [g] \<and> pr_proof g = Some (Link (cid d))
                     \<and> pr_can g = Some (Text (can k)) \<and> pr_need g = None))" .
      qed
    qed
  qed
next
  have t: "query_time now selector = T" by (simp add: T_def query_time_def)
  show "\<forall>keys. sel_can selector = Some keys \<longrightarrow> keys \<noteq> [] \<longrightarrow> [] \<notin> set keys \<longrightarrow>
     (length (s_proofs (q_select (query now selector))) = length keys
      \<and> length (q_where (query now selector)) = length keys + 2
      \<and> (\<forall>i < length keys.
           s_proofs (q_select (query now selector)) ! i
             = fst (proof_group (Some (keys ! i)) (2 + 4 * i))
           \<and> p_need (s_proofs (q_select (query now selector)) ! i) = Some (keys ! i)
           \<and> q_where (query now selector) ! i =
               And (And (fst (match (Var (2 + 4 * i + 2))
                           \<lparr>m_audience = Some (Var 1), m_issuer = Some (Var (2 + 4 * i)),
                            m_subject = Some (Var 0), m_can = Some (Var (2 + 4 * i + 1)),
                            m_time = Some (Const (Num T))\<rparr>
                           (2 + 4 * length keys + 10 * i)))
                        (Glob (Const (Text (keys ! i))) (Var (2 + 4 * i + 1))))
                   (fst (attestations (fst (proof_group (Some (keys ! i)) (2 + 4 * i)))
                          (Const (Num T)) (Var 1)
                          (2 + 4 * length keys + 10 * i + 8)))))
     \<and> (distinct (map cid ds) \<longrightarrow>
       (\<forall>rows row. find_rows ds now selector = Inr rows \<longrightarrow> row \<in> set rows \<longrightarrow>
         length (r_proofs row) = length keys
         \<and> (\<forall>i < length keys.
              pr_need (r_proofs row ! i) = Some (keys ! i)
              \<and> (\<exists>d \<in> set ds. \<exists>k \<in> set (capabilities d).
                    pr_proof (r_proofs row ! i) = Some (Link (cid d))
                    \<and> pr_can (r_proofs row ! i) = Some (Text (can k))
                    \<and> glob_match (can k) (keys ! i)))))"
  proof (intro allI impI)
    fix keys
    assume keys: "sel_can selector = Some keys" "keys \<noteq> []" "[] \<notin> set keys"
    from keys(1) have qk: "query_keys selector = keys" by (simp add: query_keys_def)
    show "(length (s_proofs (q_select (query now selector))) = length keys
      \<and> length (q_where (query now selector)) = length keys + 2
      \<and> (\<forall>i < length keys.
           s_proofs (q_select (query now selector)) ! i
             = fst (proof_group (Some (keys ! i)) (2 + 4 * i))
           \<and> p_need (s_proofs (q_select (query now selector)) ! i) = Some (keys ! i)
           \<and> q_where (query now selector) ! i =
               And (And (fst (match (Var (2 + 4 * i + 2))
                           \<lparr>m_audience = Some (Var 1), m_issuer = Some (Var (2 + 4 * i)),
                            m_subject = Some (Var 0), m_can = Some (Var (2 + 4 * i + 1)),
                            m_time = Some (Const (Num T))\<rparr>
                           (2 + 4 * length keys + 10 * i)))
                        (Glob (Const (Text (keys ! i))) (Var (2 + 4 * i + 1))))
                   (fst (attestations (fst (proof_group (Some (keys ! i)) (2 + 4 * i)))
                          (Const (Num T)) (Var 1)
                          (2 + 4 * length keys + 10 * i + 8)))))
     \<and> (distinct (map cid ds) \<longrightarrow>
       (\<forall>rows row. find_rows ds now selector = Inr rows \<longrightarrow> row \<in> set rows \<longrightarrow>
         length (r_proofs row) = length keys
         \<and> (\<forall>i < length keys.
              pr_need (r_proofs row ! i) = Some (keys ! i)
              \<and> (\<exists>d \<in> set ds. \<exists>k \<in> set (capabilities d).
                    pr_proof (r_proofs row ! i) = Some (Link (cid d))
                    \<and> pr_can (r_proofs row ! i) = Some (Text (can k))
                    \<and> glob_match (can k) (keys ! i)))))"
    proof (rule conjI)
      from conjunct2[OF query_groups_nonempty[of selector now, unfolded t qk], THEN mp, OF keys(2),
                     THEN mp, OF keys(3)]
      show "length (s_proofs (q_select (query now selector))) = length keys
      \<and> length (q_where (query now selector)) = length keys + 2
      \<and> (\<forall>i < length keys.
           s_proofs (q_select (query now selector)) ! i
             = fst (proof_group (Some (keys ! i)) (2 + 4 * i))
           \<and> p_need (s_proofs (q_select (query now selector)) ! i) = Some (keys ! i)
           \<and> q_where (query now selector) ! i =
               And (And (fst (match (Var (2 + 4 * i + 2))
                           \<lparr>m_audience = Some (Var 1), m_issuer = Some (Var (2 + 4 * i)),
                            m_subject = Some (Var 0), m_can = Some (Var (2 + 4 * i + 1)),
                            m_time = Some (Const (Num T))\<rparr>
                           (2 + 4 * length keys + 10 * i)))
                        (Glob (Const (Text (keys ! i))) (Var (2 + 4 * i + 1))))
                   (fst (attestations (fst (proof_group (Some (keys ! i)) (2 + 4 * i)))
                          (Const (Num T)) (Var 1)
                          (2 + 4 * length keys + 10 * i + 8))))" .
    next
      show "distinct (map cid ds) \<longrightarrow>
       (\<forall>rows row. find_rows ds now selector = Inr rows \<longrightarrow> row \<in> set rows \<longrightarrow>
         length (r_proofs row) = length keys
         \<and> (\<forall>i < length keys.
              pr_need (r_proofs row ! i) = Some (keys ! i)
              \<and> (\<exists>d \<in> set ds. \<exists>k \<in> set (capabilities d).
                    pr_proof (r_proofs row ! i) = Some (Link (cid d))
                    \<and> pr_can (r_proofs row ! i) = Some (Text (can k))
                    \<and> glob_match (can k) (keys ! i))))"
      proof (intro impI allI)
        fix rows row
        assume dist: "distinct (map cid ds)" and fr: "find_rows ds now selector = Inr rows" and row: "row \<in> set rows"
        from query_rows_need[OF dist keys fr row]
        show "length (r_proofs row) = length keys
         \<and> (\<forall>i < length keys.
              pr_need (r_proofs row ! i) = Some (keys ! i)
              \<and> (\<exists>d \<in> set ds. \<exists>k \<in> set (capabilities d).
                    pr_proof (r_proofs row ! i) = Some (Link (cid d))
                    \<and> pr_can (r_proofs row ! i) = Some (Text (can k))
                    \<and> glob_match (can k) (keys ! i)))" .
      qed
    qed
  qed
qed

theorem query_groups_witness:
  "(sel_can \<lparr>sel_audience = Exact ''did:key:alice'', sel_can = None,
      sel_subject = None, sel_time = Some 50\<rparr> = None \<or> sel_can \<lparr>sel_audience = Exact ''did:key:alice'', sel_can = None,
      sel_subject = None, sel_time = Some 50\<rparr> = Some [])
   \<and> (s_proofs (q_select (query 1000 \<lparr>sel_audience = Exact ''did:key:alice'', sel_can = None,
      sel_subject = None, sel_time = Some 50\<rparr>)) = [fst (proof_group None 2)])
   \<and> (length (q_where (query 1000 \<lparr>sel_audience = Exact ''did:key:alice'', sel_can = None,
      sel_subject = None, sel_time = Some 50\<rparr>)) = 3)
   \<and> (distinct (map cid [fixture_grant, fixture_wild]))
   \<and> (\<not> glob_match ''did:mailto:*'' (issuer fixture_wild))
   \<and> (\<exists>rows. find_rows [fixture_grant, fixture_wild] 1000 \<lparr>sel_audience = Exact ''did:key:alice'', sel_can = None,
      sel_subject = None, sel_time = Some 50\<rparr> = Inr rows
      \<and> (\<exists>row \<in> set rows. r_subject row = Some (Text ''did:key:space'')
           \<and> r_audience row = Some (Text ''did:key:alice'')
           \<and> (\<exists>g. r_proofs row = [g] \<and> pr_proof g = Some (Link ''wild'')
                  \<and> pr_can g = Some (Text ''store/*'') \<and> pr_need g = None)))
   \<and> (sel_can \<lparr>sel_audience = Exact ''did:key:alice'', sel_can = Some [''store/add'', ''store/remove'', ''upload/add''],
      sel_subject = None, sel_time = Some 50\<rparr> = Some [''store/add'', ''store/remove'', ''upload/add''])
   \<and> ([] \<notin> set [''store/add'', ''store/remove'', ''upload/add''])
   \<and> (length (s_proofs (q_select (query 1000 \<lparr>sel_audience = Exact ''did:key:alice'', sel_can = Some [''store/add'', ''store/remove'', ''upload/add''],
      sel_subject = None, sel_time = Some 50\<rparr>))) = 3)
   \<and> (p_need (s_proofs (q_select (query 1000 \<lparr>sel_audience = Exact ''did:key:alice'', sel_can = Some [''store/add'', ''store/remove'', ''upload/add''],
      sel_subject = None, sel_time = Some 50\<rparr>)) ! 2) = Some ''upload/add'')
   \<and> (q_where (query 1000 \<lparr>sel_audience = Exact ''did:key:alice'', sel_can = Some [''store/add'', ''store/remove'', ''upload/add''],
      sel_subject = None, sel_time = Some 50\<rparr>) ! 2 =
       And (And (fst (match (Var 12)
                   \<lparr>m_audience = Some (Var 1), m_issuer = Some (Var 10), m_subject = Some (Var 0),
                    m_can = Some (Var 11), m_time = Some (Const (Num 50))\<rparr> 34))
                (Glob (Const (Text ''upload/add'')) (Var 11)))
           (fst (attestations (fst (proof_group (Some ''upload/add'') 10)) (Const (Num 50)) (Var 1) 42)))
   \<and> (find_rows [fixture_grant, fixture_wild] 1000 \<lparr>sel_audience = Exact ''did:key:alice'', sel_can = Some [''store/add'', ''store/remove''],
      sel_subject = None, sel_time = Some 50\<rparr> =
       Inr [\<lparr>r_proofs =
           [\<lparr>pr_issuer = Some (Text ''did:key:space''), pr_can = Some (Text ''store/add''),
            pr_proof = Some (Link ''grant''), pr_attestation = None,
            pr_need = Some ''store/add''\<rparr>,
            \<lparr>pr_issuer = Some (Text ''did:key:space''), pr_can = Some (Text ''store/*''),
            pr_proof = Some (Link ''wild''), pr_attestation = None,
            pr_need = Some ''store/remove''\<rparr>],
          r_subject = Some (Text ''did:key:space''),
          r_audience = Some (Text ''did:key:alice'')\<rparr>,
            \<lparr>r_proofs =
           [\<lparr>pr_issuer = Some (Text ''did:key:space''), pr_can = Some (Text ''store/*''),
            pr_proof = Some (Link ''wild''), pr_attestation = None,
            pr_need = Some ''store/add''\<rparr>,
            \<lparr>pr_issuer = Some (Text ''did:key:space''), pr_can = Some (Text ''store/*''),
            pr_proof = Some (Link ''wild''), pr_attestation = None,
            pr_need = Some ''store/remove''\<rparr>],
          r_subject = Some (Text ''did:key:space''),
          r_audience = Some (Text ''did:key:alice'')\<rparr>])
   \<and> (\<exists>d \<in> set [fixture_grant, fixture_wild]. \<exists>k \<in> set (capabilities d).
      cid d = ''wild'' \<and> can k = ''store/*'' \<and> glob_match (can k) ''store/remove'')"
proof -
  let ?ds = "[fixture_grant, fixture_wild]"
  let ?selN = "\<lparr>sel_audience = Exact ''did:key:alice'', sel_can = None,
      sel_subject = None, sel_time = Some 50\<rparr>"
  let ?sel3 = "\<lparr>sel_audience = Exact ''did:key:alice'', sel_can = Some [''store/add'', ''store/remove'', ''upload/add''],
      sel_subject = None, sel_time = Some 50\<rparr>"
  let ?sel2 = "\<lparr>sel_audience = Exact ''did:key:alice'', sel_can = Some [''store/add'', ''store/remove''],
      sel_subject = None, sel_time = Some 50\<rparr>"
  let ?capW = "\<lparr>can = ''store/*'', with' = ''did:key:space'', nb = []\<rparr>"
  let ?rowA = "\<lparr>r_proofs =
           [\<lparr>pr_issuer = Some (Text ''did:key:space''), pr_can = Some (Text ''store/add''),
            pr_proof = Some (Link ''grant''), pr_attestation = None,
            pr_need = Some ''store/add''\<rparr>,
            \<lparr>pr_issuer = Some (Text ''did:key:space''), pr_can = Some (Text ''store/*''),
            pr_proof = Some (Link ''wild''), pr_attestation = None,
            pr_need = Some ''store/remove''\<rparr>],
          r_subject = Some (Text ''did:key:space''),
          r_audience = Some (Text ''did:key:alice'')\<rparr>"
  let ?rowB = "\<lparr>r_proofs =
           [\<lparr>pr_issuer = Some (Text ''did:key:space''), pr_can = Some (Text ''store/*''),
            pr_proof = Some (Link ''wild''), pr_attestation = None,
            pr_need = Some ''store/add''\<rparr>,
            \<lparr>pr_issuer = Some (Text ''did:key:space''), pr_can = Some (Text ''store/*''),
            pr_proof = Some (Link ''wild''), pr_attestation = None,
            pr_need = Some ''store/remove''\<rparr>],
          r_subject = Some (Text ''did:key:space''),
          r_audience = Some (Text ''did:key:alice'')\<rparr>"
  have none: "sel_can ?selN = None \<or> sel_can ?selN = Some []" by simp
  have dist: "distinct (map cid ?ds)" by (simp add: fixture_grant_def fixture_wild_def)
  have nm: "\<not> glob_match ''did:mailto:*'' (issuer fixture_wild)" by (simp add: fixture_wild_def)
  note iN = query_groups[where selector = ?selN and now = 1000 and ds = ?ds]
  note AN = conjunct1[OF iN, THEN mp, OF none]
  note AS = conjunct1[OF AN]
  have s1: "s_proofs (q_select (query 1000 ?selN)) = [fst (proof_group None 2)]"
    by (rule conjunct1[OF AS])
  have s3: "length (q_where (query 1000 ?selN)) = 3"
    by (rule conjunct1[OF conjunct2[OF conjunct2[OF AS]]])
  have dW: "fixture_wild \<in> set ?ds" by simp
  have kW: "?capW \<in> set (capabilities fixture_wild)" by (simp add: fixture_wild_def)
  have uW: "unexpired fixture_wild (case sel_time ?selN of None \<Rightarrow> 1000 | Some t \<Rightarrow> t)"
    by (simp add: fixture_wild_def unexpired_def)
  have aW: "text_satisfies (sel_audience ?selN) (audience fixture_wild)"
    by (simp add: fixture_wild_def)
  have sW: "text_satisfies (case sel_subject ?selN of None \<Rightarrow> GlobOf ''*'' | Some s \<Rightarrow> s) (with' ?capW)"
    by (simp add: glob_match_any)
  have gW: "\<not> glob_match ''did:mailto:*'' (issuer fixture_wild)
       \<or> (\<exists>a \<in> set ?ds. attests a (cid fixture_wild) \<and> audience a = audience fixture_wild
             \<and> unexpired a (case sel_time ?selN of None \<Rightarrow> 1000 | Some t \<Rightarrow> t))"
    using nm by (rule disjI1)
  note W = conjunct2[OF AN, THEN mp, OF dist, THEN bspec, OF dW, THEN bspec, OF kW,
                     THEN mp, OF uW, THEN mp, OF aW, THEN mp, OF sW, THEN mp, OF gW]
  from W have any: "\<exists>rows. find_rows ?ds 1000 ?selN = Inr rows
      \<and> (\<exists>row \<in> set rows. r_subject row = Some (Text ''did:key:space'')
           \<and> r_audience row = Some (Text ''did:key:alice'')
           \<and> (\<exists>g. r_proofs row = [g] \<and> pr_proof g = Some (Link ''wild'')
                  \<and> pr_can g = Some (Text ''store/*'') \<and> pr_need g = None))"
    by (simp add: fixture_wild_def)
  have can3: "sel_can ?sel3 = Some [''store/add'', ''store/remove'', ''upload/add'']" by simp
  have ne3: "[''store/add'', ''store/remove'', ''upload/add''] \<noteq> []" by simp
  have nn3: "[] \<notin> set [''store/add'', ''store/remove'', ''upload/add'']" by simp
  note i3 = query_groups[where selector = ?sel3 and now = 1000 and ds = ?ds]
  note B3 = conjunct1[OF conjunct2[OF i3, THEN spec, THEN mp, OF can3, THEN mp, OF ne3, THEN mp, OF nn3]]
  from conjunct1[OF B3] have l3: "length (s_proofs (q_select (query 1000 ?sel3))) = 3" by simp
  have i2: "(2 :: nat) < length [''store/add'', ''store/remove'', ''upload/add'']" by simp
  note e3 = conjunct2[OF conjunct2[OF B3], THEN spec, THEN mp, OF i2]
  from conjunct1[OF conjunct2[OF e3]]
  have n3: "p_need (s_proofs (q_select (query 1000 ?sel3)) ! 2) = Some ''upload/add''" by simp
  from conjunct2[OF conjunct2[OF e3]]
  have w3: "q_where (query 1000 ?sel3) ! 2 =
       And (And (fst (match (Var 12)
                   \<lparr>m_audience = Some (Var 1), m_issuer = Some (Var 10), m_subject = Some (Var 0),
                    m_can = Some (Var 11), m_time = Some (Const (Num 50))\<rparr> 34))
                (Glob (Const (Text ''upload/add'')) (Var 11)))
           (fst (attestations (fst (proof_group (Some ''upload/add'') 10)) (Const (Num 50)) (Var 1) 42))"
    by simp
  have can2: "sel_can ?sel2 = Some [''store/add'', ''store/remove'']" by simp
  have ne2: "[''store/add'', ''store/remove''] \<noteq> []" by simp
  have nn2: "[] \<notin> set [''store/add'', ''store/remove'']" by simp
  have rows2: "find_rows ?ds 1000 ?sel2 = Inr [?rowA, ?rowB]"
    by code_simp
  have inA: "?rowA \<in> set [?rowA, ?rowB]" by simp
  have i1: "(1 :: nat) < length [''store/add'', ''store/remove'']" by simp
  note i2' = query_groups[where selector = ?sel2 and now = 1000 and ds = ?ds]
  note B2 = conjunct2[OF conjunct2[OF i2', THEN spec, THEN mp, OF can2, THEN mp, OF ne2, THEN mp, OF nn2],
                      THEN mp, OF dist, THEN spec, THEN spec, THEN mp, OF rows2, THEN mp, OF inA]
  note e2 = conjunct2[OF conjunct2[OF B2, THEN spec, THEN mp, OF i1]]
  from e2 obtain d k where dk: "d \<in> set ?ds" "k \<in> set (capabilities d)"
    "pr_proof (r_proofs ?rowA ! 1) = Some (Link (cid d))"
    "pr_can (r_proofs ?rowA ! 1) = Some (Text (can k))"
    "glob_match (can k) ([''store/add'', ''store/remove''] ! 1)"
    by blast
  from dk(3) have c1: "cid d = ''wild''" by simp
  from dk(4) have c2: "can k = ''store/*''" by simp
  from dk(5) have c3: "glob_match (can k) ''store/remove''" by simp
  from dk(1,2) c1 c2 c3 have sem2: "\<exists>d \<in> set ?ds. \<exists>k \<in> set (capabilities d).
      cid d = ''wild'' \<and> can k = ''store/*'' \<and> glob_match (can k) ''store/remove''"
    by blast
  show ?thesis
    using none s1 s3 dist nm any can3 nn3 l3 n3 w3 rows2 sem2 by (intro conjI)
qed

end
